theory Spec2Isabelle
  imports Complex_Main "HOL-Library.Sublist" "HOL-Library.AList" "HOL-Library.Multiset"
begin

section \<open>JavaScript numbers\<close>

text \<open>
  Every amount of the analytics route is a JavaScript number, an IEEE 754 binary64 value.
  A finite value is kept as the rational it denotes; the two zeros are identified (the
  route never divides by an amount, and a serialised \<open>-0\<close> prints as \<open>0\<close>).
  Arithmetic computes the exact rational result and rounds it to the nearest double,
  ties to even, as the language does.
\<close>

datatype jsnum = Fin rat | PInf | NInf | NaN

function bitlen :: "int \<Rightarrow> nat" where
  "bitlen n = (if n \<le> 0 then 0 else Suc (bitlen (n div 2)))"
  by pat_completeness auto
termination
  by (relation "measure nat") auto

declare bitlen.simps [simp del]

definition pow2 :: "int \<Rightarrow> rat" where
  "pow2 k = (if 0 \<le> k then 2 ^ nat k else 1 / 2 ^ nat (- k))"

definition floor_log2 :: "rat \<Rightarrow> int" where
  \<comment> \<open>for \<open>0 < q\<close>: the \<open>e\<close> with \<open>2^e \<le> q < 2^(e+1)\<close>\<close>
  "floor_log2 q =
     (let k = int (bitlen (fst (quotient_of q))) - int (bitlen (snd (quotient_of q)))
      in if pow2 k \<le> q then k else k - 1)"

definition round_half_even :: "rat \<Rightarrow> int" where
  "round_half_even x =
     (let f = \<lfloor>x\<rfloor>; d = x - of_int f
      in if d < 1 / 2 then f else if 1 / 2 < d then f + 1 else if even f then f else f + 1)"

definition fl :: "rat \<Rightarrow> jsnum" where
  \<comment> \<open>round to binary64: 53 significant bits, least exponent -1022, overflow to infinity.
      With \<open>n\<close> the rounded significand, the result \<open>n * 2^(e - 52)\<close> reaches \<open>2^1024\<close>
      when \<open>1024 \<le> e\<close>, or when \<open>e = 1023\<close> and \<open>n\<close> was rounded up to \<open>2^53\<close>.\<close>
  "fl q =
     (if q = 0 then Fin 0
      else let e = max (floor_log2 \<bar>q\<bar>) (- 1022);
               ulp = pow2 (e - 52);
               n = round_half_even (q / ulp)
           in if 1024 \<le> e \<or> (e = 1023 \<and> \<bar>n\<bar> = 2 ^ 53)
              then (if 0 < q then PInf else NInf)
              else Fin (of_int n * ulp))"

fun js_add :: "jsnum \<Rightarrow> jsnum \<Rightarrow> jsnum" where
  "js_add (Fin a) (Fin b) = fl (a + b)"
| "js_add NaN _ = NaN"
| "js_add _ NaN = NaN"
| "js_add PInf NInf = NaN"
| "js_add NInf PInf = NaN"
| "js_add PInf _ = PInf"
| "js_add _ PInf = PInf"
| "js_add NInf _ = NInf"
| "js_add _ NInf = NInf"

definition js_neg :: "jsnum \<Rightarrow> jsnum" where
  "js_neg x = (case x of Fin a \<Rightarrow> Fin (- a) | PInf \<Rightarrow> NInf | NInf \<Rightarrow> PInf | NaN \<Rightarrow> NaN)"

definition js_sgn :: "jsnum \<Rightarrow> int" where
  "js_sgn x = (case x of Fin a \<Rightarrow> (if a = 0 then 0 else if 0 < a then 1 else - 1) | PInf \<Rightarrow> 1 | NInf \<Rightarrow> - 1 | NaN \<Rightarrow> 0)"

fun js_mul :: "jsnum \<Rightarrow> jsnum \<Rightarrow> jsnum" where
  "js_mul (Fin a) (Fin b) = fl (a * b)"
| "js_mul NaN _ = NaN"
| "js_mul _ NaN = NaN"
| "js_mul x y =
     (if js_sgn x * js_sgn y = 0 then NaN else if 0 < js_sgn x * js_sgn y then PInf else NInf)"

fun js_div :: "jsnum \<Rightarrow> jsnum \<Rightarrow> jsnum" where
  "js_div (Fin a) (Fin b) =
     (if b = 0 then (if a = 0 then NaN else if 0 < a then PInf else NInf) else fl (a / b))"
| "js_div NaN _ = NaN"
| "js_div _ NaN = NaN"
| "js_div (Fin a) _ = Fin 0"
| "js_div x (Fin b) = (if 0 \<le> b then x else js_neg x)"
| "js_div _ _ = NaN"

definition num_of_int :: "int \<Rightarrow> jsnum" where
  "num_of_int i = fl (of_int i)"

definition num_of_nat :: "nat \<Rightarrow> jsnum" where
  "num_of_nat n = fl (of_nat n)"

section \<open>Strings and dates\<close>

fun str_includes :: "string \<Rightarrow> string \<Rightarrow> bool" where
  "str_includes [] pat = (pat = [])"
| "str_includes (c # cs) pat = (prefix pat (c # cs) \<or> str_includes cs pat)"

function showNat :: "nat \<Rightarrow> string" where
  "showNat n =
     (if n < 10 then [''0123456789'' ! n] else showNat (n div 10) @ [''0123456789'' ! (n mod 10)])"
  by pat_completeness auto
termination
  by (relation "measure id") auto

declare showNat.simps [simp del]

datatype month_name = Jan | Feb | Mar | Apr | May | Jun | Jul | Aug | Sep | Oct | Nov | Dec

text \<open>
  \<open>new Date(order.processedAt)\<close> is a point in time; what the route uses of it is the
  calendar year and month it falls in, in the server's time zone.
\<close>

record jsdate =
  date_year :: nat
  date_month :: month_name

fun short_month :: "month_name \<Rightarrow> string" where
  "short_month Jan = ''Jan''" | "short_month Feb = ''Feb''" | "short_month Mar = ''Mar''"
| "short_month Apr = ''Apr''" | "short_month May = ''May''" | "short_month Jun = ''Jun''"
| "short_month Jul = ''Jul''" | "short_month Aug = ''Aug''" | "short_month Sep = ''Sep''"
| "short_month Oct = ''Oct''" | "short_month Nov = ''Nov''" | "short_month Dec = ''Dec''"

definition toLocaleDateString :: "jsdate \<Rightarrow> string" where
  \<comment> \<open>\<open>toLocaleDateString('en', { year: 'numeric', month: 'short' })\<close>\<close>
  "toLocaleDateString d = short_month (date_month d) @ '' '' @ showNat (date_year d)"

section \<open>Orders as the GraphQL query returns them\<close>

text \<open>
  A field that the route tests before use (\<open>processedAt\<close>, \<open>customer\<close>, \<open>product\<close>,
  \<open>shippingAddress\<close>, \<open>city\<close>) is optional. So is \<open>variant\<close>, which the route reads
  without a test, under the test of \<open>product\<close> alone: a line item with a product and no
  variant makes \<open>item.variant.price\<close> throw a TypeError. \<open>amount\<close> holds the number that
  \<open>parseFloat\<close> returns for \<open>totalPriceSet.shopMoney.amount\<close>, and \<open>variant\<close> the one it
  returns for \<open>variant.price\<close>; \<open>product\<close> holds \<open>product.title\<close>, \<open>customer\<close> holds
  \<open>customer.id\<close>. Order counts and quantities (a GraphQL \<open>Int\<close> each) stay far below
  \<open>2^53\<close>, where doubles are exact, and are kept as \<open>nat\<close> and \<open>int\<close>.
\<close>

datatype error = TypeError

record line_item =
  product :: "string option"
  quantity :: int
  variant :: "jsnum option"

record address =
  city :: "string option"

record order =
  amount :: jsnum
  processedAt :: "jsdate option"
  displayFulfillmentStatus :: string
  displayFinancialStatus :: string
  customer :: "string option"
  lineItems :: "line_item list"
  shippingAddress :: "address option"

section \<open>processAnalyticsData\<close>

record stats =
  orders :: nat
  revenue :: jsnum

record product_stats =
  name :: string
  pquantity :: int
  prevenue :: jsnum
  porders :: nat

record segments =
  new :: nat
  returning :: nat
  vip :: nat

record analytics =
  totalOrders :: nat
  totalRevenue :: jsnum
  averageOrderValue :: jsnum
  fulfilledOrders :: nat
  paidOrders :: nat
  monthlyData :: "(string \<times> stats) list"
  productData :: "product_stats list"
  customerSegments :: segments
  locationData :: "(string \<times> stats) list"

text \<open>
  A JavaScript \<open>Map\<close> keeps its keys in insertion order, and \<open>set\<close> on a key that is
  present keeps the key's place: an association list under \<open>AList.update\<close>.
  The local variables of the function are the fields of \<open>acc\<close>.
\<close>

record acc =
  monthlyStats :: "(string \<times> stats) list"
  productStats :: "(string \<times> product_stats) list"
  customerOrders :: "(string \<times> nat) list"
  locationStats :: "(string \<times> stats) list"
  revenueSum :: jsnum
  fulfilledCount :: nat
  paidCount :: nat

definition months2025 :: "string list" where
  "months2025 =
     [''Jan 2025'', ''Feb 2025'', ''Mar 2025'', ''Apr 2025'',
      ''May 2025'', ''Jun 2025'', ''Jul 2025'', ''Aug 2025'',
      ''Sep 2025'', ''Oct 2025'', ''Nov 2025'', ''Dec 2025'']"

definition zero_stats :: stats where
  "zero_stats = \<lparr>orders = 0, revenue = Fin 0\<rparr>"

definition bump_stats :: "jsnum \<Rightarrow> (string \<times> stats) list \<Rightarrow> string \<Rightarrow> (string \<times> stats) list" where
  \<comment> \<open>\<open>d = m.get(k) || { orders: 0, revenue: 0 }; d.orders += 1; d.revenue += amount; m.set(k, d)\<close>\<close>
  "bump_stats a m k =
     (let d = (case map_of m k of None \<Rightarrow> zero_stats | Some d \<Rightarrow> d)
      in AList.update k \<lparr>orders = orders d + 1, revenue = js_add (revenue d) a\<rparr> m)"

definition addMonth :: "(string \<times> stats) list \<Rightarrow> order \<Rightarrow> (string \<times> stats) list" where
  "addMonth m ord =
     (case processedAt ord of
        None \<Rightarrow> m
      | Some d \<Rightarrow> bump_stats (amount ord) m (toLocaleDateString d))"

definition addCustomer :: "(string \<times> nat) list \<Rightarrow> order \<Rightarrow> (string \<times> nat) list" where
  "addCustomer m ord =
     (case customer ord of
        None \<Rightarrow> m
      | Some customerId \<Rightarrow>
          (let orderCount = (case map_of m customerId of None \<Rightarrow> 0 | Some n \<Rightarrow> n)
           in AList.update customerId (orderCount + 1) m))"

definition addItem ::
  "(string \<times> product_stats) list \<Rightarrow> line_item \<Rightarrow> error + (string \<times> product_stats) list" where
  \<comment> \<open>the body of \<open>order.lineItems.edges.forEach\<close>\<close>
  "addItem m item =
     (case product item of
        None \<Rightarrow> Inr m
      | Some key \<Rightarrow>
          (let s = (case map_of m key of
                      None \<Rightarrow> \<lparr>name = key, pquantity = 0, prevenue = Fin 0, porders = 0\<rparr>
                    | Some s \<Rightarrow> s)
           in case variant item of
                None \<Rightarrow> Inl TypeError
              | Some price \<Rightarrow>
                  Inr (AList.update key
                         \<lparr>name = name s,
                          pquantity = pquantity s + quantity item,
                          prevenue = js_add (prevenue s) (js_mul (num_of_int (quantity item)) price),
                          porders = porders s + 1\<rparr> m)))"

fun addItems ::
  "(string \<times> product_stats) list \<Rightarrow> line_item list \<Rightarrow> error + (string \<times> product_stats) list" where
  "addItems m [] = Inr m"
| "addItems m (item # items) =
     (case addItem m item of Inl e \<Rightarrow> Inl e | Inr m' \<Rightarrow> addItems m' items)"

definition location_of :: "address \<Rightarrow> string" where
  \<comment> \<open>\<open>order.shippingAddress.city || 'Unknown'\<close>: the empty string is falsy too\<close>
  "location_of a = (case city a of None \<Rightarrow> ''Unknown'' | Some c \<Rightarrow> if c = [] then ''Unknown'' else c)"

definition addLocation :: "(string \<times> stats) list \<Rightarrow> order \<Rightarrow> (string \<times> stats) list" where
  "addLocation m ord =
     (case shippingAddress ord of
        None \<Rightarrow> m
      | Some a \<Rightarrow> bump_stats (amount ord) m (location_of a))"

definition processOrder :: "acc \<Rightarrow> order \<Rightarrow> error + acc" where
  \<comment> \<open>the body of \<open>orders.forEach\<close>; an exception leaves the function, and nothing of the
      order's updates is seen\<close>
  "processOrder st ord =
     (case addItems (productStats st) (lineItems ord) of
        Inl e \<Rightarrow> Inl e
      | Inr ps \<Rightarrow>
          Inr \<lparr>monthlyStats = addMonth (monthlyStats st) ord,
               productStats = ps,
               customerOrders = addCustomer (customerOrders st) ord,
               locationStats = addLocation (locationStats st) ord,
               revenueSum = js_add (revenueSum st) (amount ord),
               fulfilledCount =
                 (if displayFulfillmentStatus ord = ''FULFILLED'' then fulfilledCount st + 1
                  else fulfilledCount st),
               paidCount =
                 (if displayFinancialStatus ord = ''PAID'' then paidCount st + 1 else paidCount st)\<rparr>)"

fun processOrders :: "acc \<Rightarrow> order list \<Rightarrow> error + acc" where
  "processOrders st [] = Inr st"
| "processOrders st (ord # os) =
     (case processOrder st ord of Inl e \<Rightarrow> Inl e | Inr st' \<Rightarrow> processOrders st' os)"

definition init_acc :: acc where
  "init_acc =
     \<lparr>monthlyStats = map (\<lambda>month. (month, zero_stats)) months2025,
      productStats = [],
      customerOrders = [],
      locationStats = [],
      revenueSum = Fin 0,
      fulfilledCount = 0,
      paidCount = 0\<rparr>"

definition classify :: "segments \<Rightarrow> nat \<Rightarrow> segments" where
  \<comment> \<open>the body of \<open>customerOrders.forEach\<close>\<close>
  "classify s n =
     (if n = 1 then s\<lparr>new := new s + 1\<rparr>
      else if 5 \<le> n then s\<lparr>vip := vip s + 1\<rparr>
      else s\<lparr>returning := returning s + 1\<rparr>)"

definition segment_counts :: "(string \<times> nat) list \<Rightarrow> segments" where
  "segment_counts m = foldl classify \<lparr>new = 0, returning = 0, vip = 0\<rparr> (map snd m)"

text \<open>
  \<open>Array.prototype.sort\<close> is stable; under the comparator \<open>(a, b) => b.k - a.k\<close> on
  integer keys it is the stable sort by descending key.
\<close>

definition finish :: "nat \<Rightarrow> acc \<Rightarrow> analytics" where
  "finish n st =
     \<lparr>totalOrders = n,
      totalRevenue = revenueSum st,
      averageOrderValue = (if 0 < n then js_div (revenueSum st) (num_of_nat n) else Fin 0),
      fulfilledOrders = fulfilledCount st,
      paidOrders = paidCount st,
      monthlyData = monthlyStats st,
      productData = take 10 (sort_key (\<lambda>s. - pquantity s) (map snd (productStats st))),
      customerSegments = segment_counts (customerOrders st),
      locationData = take 10 (sort_key (\<lambda>e. - int (orders (snd e))) (locationStats st))\<rparr>"

definition processAnalyticsData :: "order list \<Rightarrow> error + analytics" where
  "processAnalyticsData os =
     (case processOrders init_acc os of
        Inl e \<Rightarrow> Inl e
      | Inr st \<Rightarrow> Inr (finish (length os) st))"

subsection \<open>Notions for stating the aggregation claims\<close>

definition has_product :: "line_item \<Rightarrow> bool" where
  "has_product item = (product item \<noteq> None)"

definition drop_productless :: "order \<Rightarrow> order" where
  \<comment> \<open>the order without its line items that have no product\<close>
  "drop_productless ord = ord\<lparr>lineItems := filter has_product (lineItems ord)\<rparr>"

definition missing_variant :: "line_item \<Rightarrow> bool" where
  \<comment> \<open>the line items at which \<open>item.variant.price\<close> throws\<close>
  "missing_variant item = (product item \<noteq> None \<and> variant item = None)"

definition monthLabel :: "order \<Rightarrow> string option" where
  "monthLabel ord = map_option toLocaleDateString (processedAt ord)"

definition monthCount :: "string \<Rightarrow> order list \<Rightarrow> nat" where
  "monthCount m os = length (filter (\<lambda>ord. monthLabel ord = Some m) os)"

definition outside2025 :: "order \<Rightarrow> bool" where
  "outside2025 ord = (case processedAt ord of None \<Rightarrow> False | Some d \<Rightarrow> date_year d \<noteq> 2025)"

definition orderCount :: "string \<Rightarrow> order list \<Rightarrow> nat" where
  "orderCount c os = length (filter (\<lambda>ord. customer ord = Some c) os)"

definition firstSeen :: "'a list \<Rightarrow> 'a list" where
  "firstSeen xs = rev (remdups (rev xs))"

definition allItems :: "order list \<Rightarrow> line_item list" where
  "allItems os = concat (map lineItems os)"

definition productTitles :: "order list \<Rightarrow> string list" where
  "productTitles os = map (the \<circ> product) (filter has_product (allItems os))"

definition titled :: "string \<Rightarrow> order list \<Rightarrow> line_item list" where
  \<comment> \<open>the line items of the orders whose product has the title \<open>t\<close>, in input order\<close>
  "titled t os = filter (\<lambda>item. product item = Some t) (allItems os)"

definition totalQuantity :: "string \<Rightarrow> order list \<Rightarrow> int" where
  "totalQuantity t os = sum_list (map quantity (titled t os))"

definition itemRevenue :: "line_item \<Rightarrow> jsnum" where
  \<comment> \<open>\<open>item.quantity * parseFloat(item.variant.price)\<close>, for an item that has a variant\<close>
  "itemRevenue item = js_mul (num_of_int (quantity item)) (the (variant item))"

definition shipTo :: "order \<Rightarrow> string option" where
  "shipTo ord = map_option location_of (shippingAddress ord)"

definition shipLocations :: "order list \<Rightarrow> string list" where
  "shipLocations os = map (the \<circ> shipTo) (filter (\<lambda>ord. shipTo ord \<noteq> None) os)"

definition locationCount :: "string \<Rightarrow> order list \<Rightarrow> nat" where
  "locationCount l os = length (filter (\<lambda>ord. shipTo ord = Some l) os)"

section \<open>The loader: paginated fetch with retries\<close>

record page_info =
  hasNextPage :: bool
  endCursor :: "string option"

record orders_connection =
  edges :: "order list option"
  pageInfo :: "page_info option"

text \<open>
  What one \<open>admin.graphql\<close> call followed by \<open>.json()\<close> comes to: either of them throws
  (\<open>Rejected\<close>, with the text that the handler reads as \<open>error.message || String(error)\<close>),
  or a body arrives, with the messages of its \<open>errors\<close> array and its \<open>data.orders\<close>
  when there is one. The upstream answers the \<open>n\<close>-th request of a load, sent with
  cursor \<open>c\<close>, with \<open>up n c\<close>.
\<close>

datatype response = Rejected string | Body "string list" "orders_connection option"

type_synonym upstream = "nat \<Rightarrow> string option \<Rightarrow> response"

text \<open>
  What a load does that its surroundings can see: a request (with its cursor), and a call
  of \<open>delay\<close>, told apart by the statement it comes from: the pacing before a request,
  or the wait before a retry.
\<close>

datatype event = Pacing nat | Backoff nat | Request "string option"

record fetch_state =
  allOrders :: "order list"
  hasNext :: bool
  cursor :: "string option"
  pageCount :: nat
  calls :: nat
  trace :: "event list"

definition MAX_PAGES :: nat where
  "MAX_PAGES = 20"

definition maxRetries :: nat where
  "maxRetries = 3"

fun tryBody :: "response \<Rightarrow> string + orders_connection" where
  \<comment> \<open>the statements of the \<open>try\<close> block after the request: \<open>Inl\<close> is the thrown message\<close>
  "tryBody (Rejected msg) = Inl msg"
| "tryBody (Body (errorMessage # _) _) =
     (if str_includes errorMessage ''Throttled'' then Inl ''Throttled''
      else Inl (''GraphQL Error: '' @ errorMessage))"
| "tryBody (Body [] None) = Inl ''Invalid GraphQL response structure''"
| "tryBody (Body [] (Some conn)) = Inr conn"

definition transient :: "string \<Rightarrow> bool" where
  \<comment> \<open>\<open>errorMessage.includes('Throttled') || errorMessage.includes('fetch failed')\<close>\<close>
  "transient errorMessage =
     (str_includes errorMessage ''Throttled'' \<or> str_includes errorMessage ''fetch failed'')"

definition log_event :: "event \<Rightarrow> fetch_state \<Rightarrow> fetch_state" where
  "log_event e st = st\<lparr>trace := trace st @ [e]\<rparr>"

definition send :: "fetch_state \<Rightarrow> fetch_state" where
  \<comment> \<open>the pacing delay and the request itself\<close>
  "send st =
     (let st1 = (if 0 < pageCount st then log_event (Pacing 1500) st else st)
      in (log_event (Request (cursor st)) st1)\<lparr>calls := calls st + 1\<rparr>)"

definition accept :: "orders_connection \<Rightarrow> fetch_state \<Rightarrow> fetch_state" where
  "accept conn st =
     st\<lparr>allOrders := allOrders st @ (case edges conn of None \<Rightarrow> [] | Some es \<Rightarrow> es),
        hasNext := (case pageInfo conn of None \<Rightarrow> False | Some p \<Rightarrow> hasNextPage p),
        cursor := (case pageInfo conn of
                     None \<Rightarrow> None
                   | Some p \<Rightarrow> (case endCursor p of
                                  None \<Rightarrow> None
                                | Some c \<Rightarrow> if c = [] then None else Some c)),
        pageCount := pageCount st + 1\<rparr>"

function fetchPage :: "upstream \<Rightarrow> fetch_state \<Rightarrow> nat \<Rightarrow> fetch_state \<times> bool" where
  \<comment> \<open>the inner \<open>while (!success && retryCount <= maxRetries)\<close>; the flag is \<open>success\<close>\<close>
  "fetchPage up st retryCount =
     (if retryCount \<le> maxRetries then
        (case tryBody (up (calls st) (cursor st)) of
           Inr conn \<Rightarrow> (accept conn (send st), True)
         | Inl errorMessage \<Rightarrow>
             if transient errorMessage \<and> retryCount < maxRetries
             then fetchPage up (log_event (Backoff (4000 * (retryCount + 1))) (send st)) (retryCount + 1)
             else if retryCount < maxRetries
             then fetchPage up (log_event (Backoff (3000 * (retryCount + 1))) (send st)) (retryCount + 1)
             else (send st, False))
      else (st, False))"
  by pat_completeness auto
termination
  by (relation "measure (\<lambda>(up, st, retryCount). Suc maxRetries - retryCount)") auto

declare fetchPage.simps [simp del]

function fetchOrders :: "upstream \<Rightarrow> fetch_state \<Rightarrow> fetch_state" where
  \<comment> \<open>the outer \<open>while (hasNextPage && pageCount < MAX_PAGES)\<close>\<close>
  "fetchOrders up st =
     (if hasNext st \<and> pageCount st < MAX_PAGES then
        (case fetchPage up st 0 of
           (st', success) \<Rightarrow> if \<not> success then st' else fetchOrders up st')
      else st)"
  by pat_completeness auto
termination
proof (relation "measure (\<lambda>(up, st). MAX_PAGES - pageCount st)")
  show "wf (measure (\<lambda>(up, st). MAX_PAGES - pageCount st))"
    by simp
next
  fix up :: upstream and st x :: fetch_state and st' :: fetch_state and success :: bool
  assume a: "hasNext st \<and> pageCount st < MAX_PAGES" "(st', success) = fetchPage up st 0" "\<not> \<not> success"
  have "fetchPage u s r = (s', True) \<Longrightarrow> pageCount s' = Suc (pageCount s)" for u s r s'
  proof (induction u s r rule: fetchPage.induct)
    case (1 u s r)
    then show ?case
      by (subst (asm) (3) fetchPage.simps)
         (auto simp: accept_def send_def log_event_def Let_def split: if_splits sum.splits)
  qed
  from this [of up st 0 st'] a(2,3) have "pageCount st' = Suc (pageCount st)"
    by simp
  with a(1) show "((up, st'), (up, st)) \<in> measure (\<lambda>(up, st). MAX_PAGES - pageCount st)"
    by (auto simp: MAX_PAGES_def)
qed

declare fetchOrders.simps [simp del]

definition init_fetch :: fetch_state where
  "init_fetch =
     \<lparr>allOrders = [], hasNext = True, cursor = None, pageCount = 0, calls = 0, trace = []\<rparr>"

text \<open>
  The products and the locations request: a throw is caught and leaves the preset empty
  edge list; a body is taken as it is, and the \<open>return\<close> statement then reads
  \<open>data.products.edges\<close> (\<open>data.locations.edges\<close>) of it, a TypeError when the body has no
  such object.
\<close>

datatype 'n side_response = SideRejected | SideBody "'n list option"

record ('p, 'l) loader_data =
  analytics_of :: analytics
  products :: "'p list"
  locations :: "'l list"
  shop :: string

definition side_edges :: "'n side_response \<Rightarrow> error + 'n list" where
  "side_edges r =
     (case r of
        SideRejected \<Rightarrow> Inr []
      | SideBody None \<Rightarrow> Inl TypeError
      | SideBody (Some es) \<Rightarrow> Inr es)"

definition respond ::
  "string \<Rightarrow> order list \<Rightarrow> 'p side_response \<Rightarrow> 'l side_response \<Rightarrow> error + ('p, 'l) loader_data" where
  \<comment> \<open>the statements after the products and locations requests: \<open>processAnalyticsData\<close>
      runs outside every \<open>try\<close>, then the \<open>return\<close> reads the two edge lists\<close>
  "respond session_shop os productsResponse locationsResponse =
     (case processAnalyticsData os of
        Inl e \<Rightarrow> Inl e
      | Inr a \<Rightarrow>
          (case side_edges productsResponse of
             Inl e \<Rightarrow> Inl e
           | Inr ps \<Rightarrow>
               (case side_edges locationsResponse of
                  Inl e \<Rightarrow> Inl e
                | Inr ls \<Rightarrow>
                    Inr \<lparr>analytics_of = a, products = ps, locations = ls, shop = session_shop\<rparr>)))"

definition loader ::
  "string \<Rightarrow> upstream \<Rightarrow> 'p side_response \<Rightarrow> 'l side_response \<Rightarrow> error + ('p, 'l) loader_data" where
  "loader session_shop up productsResponse locationsResponse =
     respond session_shop (allOrders (fetchOrders up init_fetch)) productsResponse locationsResponse"

subsection \<open>Notions for stating the retry policy\<close>

definition attempt_error :: "upstream \<Rightarrow> fetch_state \<Rightarrow> nat \<Rightarrow> string option" where
  \<comment> \<open>the message caught at the \<open>i\<close>-th attempt (from 0) at the page that \<open>st\<close> is about to fetch\<close>
  "attempt_error up st i =
     (case tryBody (up (calls st + i) (cursor st)) of Inl msg \<Rightarrow> Some msg | Inr _ \<Rightarrow> None)"

definition attempt_fails :: "upstream \<Rightarrow> fetch_state \<Rightarrow> nat \<Rightarrow> bool" where
  "attempt_fails up st i = (attempt_error up st i \<noteq> None)"

definition backoff_base :: "string option \<Rightarrow> nat" where
  "backoff_base e = (case e of Some msg \<Rightarrow> if transient msg then 4000 else 3000 | None \<Rightarrow> 0)"

definition backoffs :: "event list \<Rightarrow> nat list" where
  "backoffs tr = concat (map (\<lambda>e. case e of Backoff n \<Rightarrow> [n] | _ \<Rightarrow> []) tr)"

definition requests :: "event list \<Rightarrow> nat" where
  "requests tr = length (filter (\<lambda>e. case e of Request _ \<Rightarrow> True | _ \<Rightarrow> False) tr)"

fun after_pages :: "upstream \<Rightarrow> nat \<Rightarrow> fetch_state \<Rightarrow> fetch_state option" where
  \<comment> \<open>the state in which the outer loop stands after it has fetched \<open>k\<close> more pages,
      when it gets that far\<close>
  "after_pages up 0 st = Some st"
| "after_pages up (Suc k) st =
     (if hasNext st \<and> pageCount st < MAX_PAGES then
        (case fetchPage up st 0 of
           (st', success) \<Rightarrow> if success then after_pages up k st' else None)
      else None)"

section \<open>Example inputs\<close>

text \<open>The three orders of the end-to-end scenario, and upstreams that answer by a fixed rule.\<close>

definition orderA :: order where
  "orderA =
     \<lparr>amount = Fin 100, processedAt = Some \<lparr>date_year = 2025, date_month = Mar\<rparr>,
      displayFulfillmentStatus = ''FULFILLED'', displayFinancialStatus = ''PAID'',
      customer = Some ''c1'',
      lineItems = [\<lparr>product = Some ''Widget'', quantity = 2, variant = Some (Fin 50)\<rparr>],
      shippingAddress = Some \<lparr>city = Some ''Springfield''\<rparr>\<rparr>"

definition orderB :: order where
  "orderB =
     \<lparr>amount = Fin 50, processedAt = Some \<lparr>date_year = 2025, date_month = Mar\<rparr>,
      displayFulfillmentStatus = ''UNFULFILLED'', displayFinancialStatus = ''PENDING'',
      customer = Some ''c1'',
      lineItems = [\<lparr>product = Some ''Widget'', quantity = 1, variant = Some (Fin 50)\<rparr>],
      shippingAddress = Some \<lparr>city = Some ''Springfield''\<rparr>\<rparr>"

definition orderC :: order where
  "orderC =
     \<lparr>amount = Fin 200, processedAt = Some \<lparr>date_year = 2025, date_month = Apr\<rparr>,
      displayFulfillmentStatus = ''FULFILLED'', displayFinancialStatus = ''PAID'',
      customer = Some ''c2'',
      lineItems = [\<lparr>product = Some ''Gadget'', quantity = 4, variant = Some (Fin 50)\<rparr>],
      shippingAddress = Some \<lparr>city = Some ''Shelbyville''\<rparr>\<rparr>"

definition orderX :: order where
  "orderX =
     \<lparr>amount = Fin 75, processedAt = Some \<lparr>date_year = 2024, date_month = Dec\<rparr>,
      displayFulfillmentStatus = ''FULFILLED'', displayFinancialStatus = ''REFUNDED'',
      customer = None,
      lineItems = [\<lparr>product = None, quantity = 3, variant = None\<rparr>],
      shippingAddress = Some \<lparr>city = None\<rparr>\<rparr>"

definition small_order :: "jsnum \<Rightarrow> order" where
  "small_order a =
     \<lparr>amount = a, processedAt = Some \<lparr>date_year = 2025, date_month = Jan\<rparr>,
      displayFulfillmentStatus = ''FULFILLED'', displayFinancialStatus = ''PAID'',
      customer = None, lineItems = [], shippingAddress = None\<rparr>"

definition dime :: order where
  \<comment> \<open>an order of 0.10: the amount is the double next to \<open>1/10\<close>\<close>
  "dime = small_order (Fin (3602879701896397 / 36028797018963968))"

definition two_dimes :: order where
  "two_dimes = small_order (Fin (3602879701896397 / 18014398509481984))"

definition three_dimes :: order where
  "three_dimes = small_order (Fin (5404319552844595 / 18014398509481984))"

definition always_throttled :: upstream where
  "always_throttled n c = Body [''Throttled''] None"

definition always_fetch_failed :: upstream where
  "always_fetch_failed n c = Rejected ''fetch failed''"

definition always_malformed :: upstream where
  "always_malformed n c = Body [] None"

definition page_of :: "order list \<Rightarrow> bool \<Rightarrow> string \<Rightarrow> response" where
  "page_of es again c =
     Body [] (Some \<lparr>edges = Some es, pageInfo = Some \<lparr>hasNextPage = again, endCursor = Some c\<rparr>\<rparr>)"

definition mixed_failures :: upstream where
  \<comment> \<open>a throttling, a network failure, a malformed body, then the only page\<close>
  "mixed_failures n c =
     (if n = 0 then Body [''Throttled''] None
      else if n = 1 then Rejected ''fetch failed''
      else if n = 2 then Body [] None
      else page_of [orderA] False ''p1'')"

definition after_mixed_failures :: fetch_state where
  "after_mixed_failures =
     \<lparr>allOrders = [orderA], hasNext = False, cursor = Some ''p1'', pageCount = 1, calls = 4,
      trace = [Request None, Backoff 4000, Request None, Backoff 8000, Request None, Backoff 9000,
               Request None]\<rparr>"

definition two_pages_then_down :: upstream where
  \<comment> \<open>two pages arrive, the second announces a third; every later request is malformed\<close>
  "two_pages_then_down n c =
     (if n = 0 then page_of [orderA, orderB] True ''p1''
      else if n = 1 then page_of [orderC] True ''p2''
      else Body [] None)"

definition after_two_pages :: fetch_state where
  "after_two_pages =
     \<lparr>allOrders = [orderA, orderB, orderC], hasNext = True, cursor = Some ''p2'', pageCount = 2,
      calls = 2, trace = [Request None, Pacing 1500, Request (Some ''p1'')]\<rparr>"

definition empty_summary :: analytics where
  "empty_summary =
     \<lparr>totalOrders = 0, totalRevenue = Fin 0, averageOrderValue = Fin 0, fulfilledOrders = 0,
      paidOrders = 0, monthlyData = map (\<lambda>month. (month, zero_stats)) months2025,
      productData = [], customerSegments = \<lparr>new = 0, returning = 0, vip = 0\<rparr>,
      locationData = []\<rparr>"

definition orderM :: order where
  \<comment> \<open>a custom line item without product or variant beside a catalogued one\<close>
  "orderM =
     \<lparr>amount = Fin 125, processedAt = Some \<lparr>date_year = 2025, date_month = Mar\<rparr>,
      displayFulfillmentStatus = ''FULFILLED'', displayFinancialStatus = ''PAID'',
      customer = Some ''c1'',
      lineItems = [\<lparr>product = None, quantity = 3, variant = None\<rparr>,
                   \<lparr>product = Some ''Widget'', quantity = 1, variant = Some (Fin 50)\<rparr>],
      shippingAddress = Some \<lparr>city = Some ''Springfield''\<rparr>\<rparr>"

definition orderM_summary :: analytics where
  "orderM_summary =
     empty_summary
       \<lparr>totalOrders := 1, totalRevenue := Fin 125, averageOrderValue := Fin 125,
        fulfilledOrders := 1, paidOrders := 1,
        monthlyData :=
          AList.update ''Mar 2025'' \<lparr>orders = 1, revenue = Fin 125\<rparr> (monthlyData empty_summary),
        productData := [\<lparr>name = ''Widget'', pquantity = 1, prevenue = Fin 50, porders = 1\<rparr>],
        customerSegments := \<lparr>new = 1, returning = 0, vip = 0\<rparr>,
        locationData := [(''Springfield'', \<lparr>orders = 1, revenue = Fin 125\<rparr>)]\<rparr>"

definition orderV :: order where
  \<comment> \<open>a line item whose product is there and whose variant is not\<close>
  "orderV =
     \<lparr>amount = Fin 30, processedAt = Some \<lparr>date_year = 2025, date_month = Jun\<rparr>,
      displayFulfillmentStatus = ''FULFILLED'', displayFinancialStatus = ''PAID'',
      customer = Some ''c4'',
      lineItems = [\<lparr>product = Some ''Widget'', quantity = 1, variant = None\<rparr>],
      shippingAddress = None\<rparr>"

definition item_of :: "string \<times> int \<Rightarrow> line_item" where
  "item_of p = \<lparr>product = Some (fst p), quantity = snd p, variant = Some (Fin 1)\<rparr>"

definition orderE :: order where
  \<comment> \<open>eleven products; the one seen last has the largest quantity\<close>
  "orderE =
     \<lparr>amount = Fin 155, processedAt = Some \<lparr>date_year = 2025, date_month = Jul\<rparr>,
      displayFulfillmentStatus = ''FULFILLED'', displayFinancialStatus = ''PAID'',
      customer = Some ''c5'',
      lineItems = map item_of
        [(''P01'', 1), (''P02'', 2), (''P03'', 3), (''P04'', 4), (''P05'', 5), (''P06'', 5),
         (''P07'', 7), (''P08'', 8), (''P09'', 9), (''P10'', 10), (''Best'', 100)],
      shippingAddress = None\<rparr>"

definition order_to :: "string \<Rightarrow> order" where
  "order_to c =
     \<lparr>amount = Fin 1, processedAt = None,
      displayFulfillmentStatus = ''UNFULFILLED'', displayFinancialStatus = ''PENDING'',
      customer = None, lineItems = [], shippingAddress = Some \<lparr>city = Some c\<rparr>\<rparr>"

definition eleven_cities :: "order list" where
  \<comment> \<open>eleven cities; the one seen last has two orders\<close>
  "eleven_cities =
     map order_to
       [''C01'', ''C02'', ''C03'', ''C04'', ''C05'', ''C06'', ''C07'', ''C08'', ''C09'', ''C10'',
        ''C11'', ''C11'']"

section \<open>Rounding is exact on integers up to \<open>2^53\<close>\<close>

lemma bitlen_pos: "0 < n \<Longrightarrow> 0 < bitlen n"
  by (subst bitlen.simps) simp

lemma bitlen_bounds: "0 < n \<Longrightarrow> 2 ^ (bitlen n - 1) \<le> n \<and> n < 2 ^ bitlen n"
proof (induction n rule: bitlen.induct)
  case (1 n)
  show ?case
  proof (cases "n div 2 = 0")
    case True
    with "1.prems" have "n = 1" by presburger
    then show ?thesis
      by (simp add: bitlen.simps [of 1] bitlen.simps [of 0])
  next
    case False
    with "1.prems" have h: "0 < n div 2" by presburger
    from "1.IH" [OF _ h] "1.prems" have IH: "2 ^ (bitlen (n div 2) - 1) \<le> n div 2"
      "n div 2 < 2 ^ bitlen (n div 2)"
      by simp_all
    have b: "bitlen n = Suc (bitlen (n div 2))"
      using "1.prems" by (subst bitlen.simps) simp
    from bitlen_pos [OF h] obtain b' where b': "bitlen (n div 2) = Suc b'"
      by (cases "bitlen (n div 2)") simp_all
    from IH b' have "2 * 2 ^ b' \<le> 2 * (n div 2)" "2 * (n div 2) + 2 \<le> 2 * 2 ^ Suc b'"
      by simp_all
    moreover have "2 * (n div 2) \<le> n" "n < 2 * (n div 2) + 2"
      by presburger+
    ultimately show ?thesis
      by (simp add: b b')
  qed
qed

lemma round_half_even_int [simp]: "round_half_even (of_int z) = z"
  by (simp add: round_half_even_def)

lemma floor_log2_int:
  assumes "0 < N"
  shows "floor_log2 (of_int N) = int (bitlen N) - 1"
proof -
  have one: "bitlen 1 = 1"
    by (simp add: bitlen.simps [of 1] bitlen.simps [of 0])
  from bitlen_bounds [OF assms] have "(2::int) ^ (bitlen N - 1) \<le> N" by simp
  then have "(of_int (2 ^ (bitlen N - 1)) :: rat) \<le> of_int N"
    by (simp only: of_int_le_iff)
  moreover have "0 \<le> int (bitlen N) - 1"
    using bitlen_pos [OF assms] by simp
  moreover have "nat (int (bitlen N) - 1) = bitlen N - 1"
    by simp
  ultimately have "pow2 (int (bitlen N) - 1) \<le> of_int N"
    by (simp add: pow2_def)
  then show ?thesis
    by (simp add: floor_log2_def one Let_def)
qed

lemma fl_int_exact:
  assumes "\<bar>n\<bar> \<le> 2 ^ 53"
  shows "fl (of_int n) = Fin (of_int n)"
proof (cases "n = 0")
  case True
  then show ?thesis by (simp add: fl_def)
next
  case False
  define N where "N = \<bar>n\<bar>"
  define e where "e = int (bitlen N) - 1"
  have N: "0 < N" "N \<le> 2 ^ 53"
    using False assms by (simp_all add: N_def)
  have absq: "\<bar>of_int n :: rat\<bar> = of_int N"
    by (simp add: N_def)
  have fle: "floor_log2 \<bar>of_int n :: rat\<bar> = e"
    unfolding absq e_def by (rule floor_log2_int [OF N(1)])
  from bitlen_bounds [OF N(1)] have lo: "2 ^ (bitlen N - 1) \<le> N" and hi: "N < 2 ^ bitlen N"
    by simp_all
  have e0: "0 \<le> e"
    using bitlen_pos [OF N(1)] by (simp add: e_def)
  have ne: "nat e = bitlen N - 1"
    by (simp add: e_def)
  have e53: "e \<le> 53"
  proof (rule ccontr)
    assume "\<not> e \<le> 53"
    then have "54 \<le> bitlen N - 1" using ne by linarith
    then have "(2::int) ^ 54 \<le> 2 ^ (bitlen N - 1)"
      by (rule power_increasing) simp
    with lo N(2) show False by simp
  qed
  have ex: "\<exists>z. (of_int n :: rat) / pow2 (e - 52) = of_int z \<and> of_int z * pow2 (e - 52) = (of_int n :: rat)"
  proof (cases "e \<le> 52")
    case True
    define j where "j = nat (52 - e)"
    have p: "pow2 (e - 52) = 1 / 2 ^ j"
    proof (cases "e = 52")
      case True
      then show ?thesis by (simp add: pow2_def j_def)
    next
      case False
      with True have "e - 52 < 0" by simp
      then show ?thesis by (simp add: pow2_def j_def)
    qed
    have "(of_int n :: rat) / pow2 (e - 52) = of_int (n * 2 ^ j)"
      by (simp add: p)
    moreover have "of_int (n * 2 ^ j) * pow2 (e - 52) = (of_int n :: rat)"
      by (simp add: p)
    ultimately show ?thesis by blast
  next
    case False
    with e53 have e: "e = 53" by simp
    then have "bitlen N - 1 = 53" using ne by simp
    with lo N(2) have "N = 2 ^ 53" by simp
    then have "n = 2 ^ 53 \<or> n = - (2 ^ 53)"
      by (auto simp: N_def abs_if split: if_splits)
    then have "n = 2 * (n div 2)" by auto
    then have "(of_int n :: rat) = 2 * of_int (n div 2)"
      by (metis of_int_mult of_int_numeral)
    then have "(of_int n :: rat) / pow2 (e - 52) = of_int (n div 2)
      \<and> of_int (n div 2) * pow2 (e - 52) = (of_int n :: rat)"
      by (simp add: e pow2_def)
    then show ?thesis by blast
  qed
  then obtain z where z: "(of_int n :: rat) / pow2 (e - 52) = of_int z"
    "of_int z * pow2 (e - 52) = (of_int n :: rat)"
    by blast
  have m: "max e (- 1022) = e"
    using e0 by simp
  have nz: "(of_int n :: rat) \<noteq> 0"
    using False by simp
  show ?thesis
    using e53 by (simp add: fl_def nz fle m z Let_def)
qed

lemma js_add_int:
  "\<bar>a + b\<bar> \<le> 2 ^ 53 \<Longrightarrow> js_add (Fin (of_int a)) (Fin (of_int b)) = Fin (of_int (a + b))"
  using fl_int_exact [of "a + b"] by simp

lemma fl_numeral: "numeral k \<le> (2::int) ^ 53 \<Longrightarrow> fl (numeral k) = Fin (numeral k)"
  using fl_int_exact [of "numeral k"] by simp

section \<open>The retry loop of one page\<close>

lemma send_fields [simp]:
  "calls (send st) = Suc (calls st)" "cursor (send st) = cursor st"
  "allOrders (send st) = allOrders st" "pageCount (send st) = pageCount st" "hasNext (send st) = hasNext st"
  by (simp_all add: send_def log_event_def Let_def)

lemma log_event_fields [simp]:
  "calls (log_event e st) = calls st" "cursor (log_event e st) = cursor st"
  "allOrders (log_event e st) = allOrders st" "pageCount (log_event e st) = pageCount st"
  "hasNext (log_event e st) = hasNext st" "trace (log_event e st) = trace st @ [e]"
  by (simp_all add: log_event_def)

lemma attempt_error_shift [simp]:
  "attempt_error up (log_event e (send st)) i = attempt_error up st (Suc i)"
  by (simp add: attempt_error_def)

lemma fetchPage_attempts:
  "fetchPage up st r = (st', ok) \<Longrightarrow> r \<le> 3 \<Longrightarrow>
     (\<not> ok \<longrightarrow> calls st' = calls st + (4 - r) \<and> (\<forall>i<4 - r. attempt_fails up st i)
        \<and> allOrders st' = allOrders st \<and> pageCount st' = pageCount st \<and> cursor st' = cursor st \<and> hasNext st' = hasNext st) \<and>
     (ok \<longrightarrow> (\<exists>k<4 - r. calls st' = calls st + Suc k \<and> (\<forall>i<k. attempt_fails up st i)
        \<and> \<not> attempt_fails up st k))"
proof (induction up st r arbitrary: st' ok rule: fetchPage.induct)
  case (1 up st r)
  show ?case
  proof (cases "tryBody (up (calls st) (cursor st))")
    case (Inr conn)
    with "1.prems" have "ok" "st' = accept conn (send st)"
      by (auto simp: fetchPage.simps [of up st r] maxRetries_def)
    moreover have "\<not> attempt_fails up st 0"
      using Inr by (simp add: attempt_fails_def attempt_error_def)
    ultimately show ?thesis using "1.prems"(2)
      by (auto simp: accept_def intro!: exI [of _ 0])
  next
    case (Inl msg)
    then have f0: "attempt_fails up st 0"
      by (simp add: attempt_fails_def attempt_error_def)
    show ?thesis
    proof (cases "r < 3")
      case False
      with "1.prems" Inl have "\<not> ok" "st' = send st" "r = 3"
        by (auto simp: fetchPage.simps [of up st r] maxRetries_def)
      with f0 show ?thesis by simp
    next
      case True
      define b where "b = (if transient msg then 4000 else 3000) * (r + 1)"
      define st2 where "st2 = log_event (Backoff b) (send st)"
      from True "1.prems" Inl have rec: "fetchPage up st2 (r + 1) = (st', ok)"
        by (auto simp: fetchPage.simps [of up st r] maxRetries_def st2_def b_def)
      have fails: "attempt_fails up st2 i = attempt_fails up st (Suc i)" for i
        by (simp add: attempt_fails_def st2_def)
      have IH: "(\<not> ok \<longrightarrow> calls st' = calls st2 + (4 - (r + 1)) \<and> (\<forall>i<4 - (r + 1). attempt_fails up st2 i)
        \<and> allOrders st' = allOrders st2 \<and> pageCount st' = pageCount st2 \<and> cursor st' = cursor st2 \<and> hasNext st' = hasNext st2) \<and>
         (ok \<longrightarrow> (\<exists>k<4 - (r + 1). calls st' = calls st2 + Suc k \<and> (\<forall>i<k. attempt_fails up st2 i)
        \<and> \<not> attempt_fails up st2 k))"
      proof (cases "transient msg")
        case t: True
        show ?thesis
          using "1.IH"(1) [OF _ Inl _ _ _] rec True t
          by (simp add: maxRetries_def st2_def b_def)
      next
        case f: False
        show ?thesis
          using "1.IH"(2) [OF _ Inl _ _ _ _] rec True f
          by (simp add: maxRetries_def st2_def b_def)
      qed
      have st2: "calls st2 = Suc (calls st)" "allOrders st2 = allOrders st"
        "pageCount st2 = pageCount st" "cursor st2 = cursor st" "hasNext st2 = hasNext st"
        by (simp_all add: st2_def)
      show ?thesis
      proof (cases ok)
        case False
        with IH have A: "calls st' = calls st2 + (4 - (r + 1))"
          "\<forall>i<4 - (r + 1). attempt_fails up st2 i"
          "allOrders st' = allOrders st2" "pageCount st' = pageCount st2"
          "cursor st' = cursor st2" "hasNext st' = hasNext st2"
          by simp_all
        have "attempt_fails up st i" if "i < 4 - r" for i
        proof (cases i)
          case 0
          with f0 show ?thesis by simp
        next
          case (Suc j)
          with that A(2) fails [of j] show ?thesis by simp
        qed
        with A st2 True False show ?thesis by simp
      next
        case ok: True
        with IH obtain k where k: "k < 4 - (r + 1)" "calls st' = calls st2 + Suc k"
          "\<forall>i<k. attempt_fails up st2 i" "\<not> attempt_fails up st2 k"
          by auto
        have "attempt_fails up st i" if "i < Suc k" for i
        proof (cases i)
          case 0
          with f0 show ?thesis by simp
        next
          case (Suc j)
          with that k(3) fails [of j] show ?thesis by simp
        qed
        moreover have "\<not> attempt_fails up st (Suc k)"
          using k(4) fails [of k] by simp
        moreover have "Suc k < 4 - r" "calls st' = calls st + Suc (Suc k)"
          using k(1,2) st2 True by simp_all
        ultimately show ?thesis using ok by blast
      qed
    qed
  qed
qed

lemma backoffs_simps [simp]:
  "backoffs [] = []" "backoffs (xs @ ys) = backoffs xs @ backoffs ys"
  "backoffs (Backoff n # xs) = n # backoffs xs"
  "backoffs (Pacing n # xs) = backoffs xs" "backoffs (Request c # xs) = backoffs xs"
  by (simp_all add: backoffs_def)

lemma requests_simps [simp]:
  "requests [] = 0" "requests (xs @ ys) = requests xs + requests ys"
  "requests (Backoff n # xs) = requests xs"
  "requests (Pacing n # xs) = requests xs" "requests (Request c # xs) = Suc (requests xs)"
  by (simp_all add: requests_def)

lemma send_trace:
  "\<exists>pace. trace (send st) = trace st @ pace @ [Request (cursor st)] \<and> backoffs pace = [] \<and> requests pace = 0"
  by (cases "0 < pageCount st") (simp_all add: send_def log_event_def)

lemma fetchPage_calls_less: "fetchPage up st r = (st', ok) \<Longrightarrow> r \<le> 3 \<Longrightarrow> calls st < calls st'"
  using fetchPage_attempts [of up st r st' ok] by (cases ok) auto

lemma fetchPage_trace:
  "fetchPage up st r = (st', ok) \<Longrightarrow> r \<le> 3 \<Longrightarrow>
     \<exists>new. trace st' = trace st @ new \<and> requests new = calls st' - calls st \<and>
       backoffs new =
         map (\<lambda>i. backoff_base (attempt_error up st i) * (r + Suc i)) [0..<calls st' - Suc (calls st)]"
proof (induction up st r arbitrary: st' ok rule: fetchPage.induct)
  case (1 up st r)
  obtain pace where pace: "trace (send st) = trace st @ pace @ [Request (cursor st)]"
    "backoffs pace = []" "requests pace = 0"
    using send_trace by blast
  show ?case
  proof (cases "tryBody (up (calls st) (cursor st))")
    case (Inr conn)
    with "1.prems" have "st' = accept conn (send st)"
      by (auto simp: fetchPage.simps [of up st r] maxRetries_def)
    then have "trace st' = trace st @ (pace @ [Request (cursor st)])" "calls st' = Suc (calls st)"
      using pace by (simp_all add: accept_def)
    then show ?thesis using pace by (intro exI [of _ "pace @ [Request (cursor st)]"]) simp
  next
    case (Inl msg)
    show ?thesis
    proof (cases "r < 3")
      case False
      with "1.prems" Inl have "st' = send st"
        by (auto simp: fetchPage.simps [of up st r] maxRetries_def)
      then show ?thesis using pace by (intro exI [of _ "pace @ [Request (cursor st)]"]) simp
    next
      case True
      define b where "b = (if transient msg then 4000 else 3000) * (r + 1)"
      define st2 where "st2 = log_event (Backoff b) (send st)"
      from True "1.prems" Inl have rec: "fetchPage up st2 (r + 1) = (st', ok)"
        by (auto simp: fetchPage.simps [of up st r] maxRetries_def st2_def b_def)
      have b: "b = backoff_base (attempt_error up st 0) * (r + Suc 0)"
        using Inl by (simp add: b_def backoff_base_def attempt_error_def)
      have IH: "\<exists>new. trace st' = trace st2 @ new \<and> requests new = calls st' - calls st2 \<and>
         backoffs new =
         map (\<lambda>i. backoff_base (attempt_error up st2 i) * (r + 1 + Suc i)) [0..<calls st' - Suc (calls st2)]"
      proof (cases "transient msg")
        case t: True
        show ?thesis
          using "1.IH"(1) [OF _ Inl _ _ _] rec True t
          by (simp add: maxRetries_def st2_def b_def)
      next
        case f: False
        show ?thesis
          using "1.IH"(2) [OF _ Inl _ _ _ _] rec True f
          by (simp add: maxRetries_def st2_def b_def)
      qed
      then obtain new2 where new2: "trace st' = trace st2 @ new2" "requests new2 = calls st' - calls st2"
        "backoffs new2 =
         map (\<lambda>i. backoff_base (attempt_error up st2 i) * (r + 1 + Suc i)) [0..<calls st' - Suc (calls st2)]"
        by blast
      have c2: "calls st2 = Suc (calls st)"
        by (simp add: st2_def)
      have lt: "calls st2 < calls st'"
        using fetchPage_calls_less [OF rec] True by simp
      have err: "attempt_error up st2 i = attempt_error up st (Suc i)" for i
        by (simp add: st2_def)
      have upt: "[0..<calls st' - Suc (calls st)] = 0 # map Suc [0..<calls st' - Suc (calls st2)]"
        using lt c2 by (simp add: upt_conv_Cons map_Suc_upt Suc_diff_Suc)
      let ?new = "pace @ [Request (cursor st), Backoff b] @ new2"
      have "trace st' = trace st @ ?new"
        using new2(1) pace(1) by (simp add: st2_def)
      moreover have "requests ?new = calls st' - calls st"
        using new2(2) pace(3) lt c2 by simp
      moreover have "backoffs ?new =
         map (\<lambda>i. backoff_base (attempt_error up st i) * (r + Suc i)) [0..<calls st' - Suc (calls st)]"
        unfolding upt using new2(3) pace(2) b by (simp add: err comp_def)
      ultimately show ?thesis by blast
    qed
  qed
qed


lemma mixed_failures_run:
  "fetchPage mixed_failures init_fetch 0 = (after_mixed_failures, True)"
  by (simp add: fetchPage.simps init_fetch_def mixed_failures_def maxRetries_def transient_def
      send_def log_event_def accept_def page_of_def after_mixed_failures_def)

lemma two_pages_run:
  "after_pages two_pages_then_down 2 init_fetch = Some after_two_pages"
  by (simp add: numeral_2_eq_2 fetchPage.simps init_fetch_def two_pages_then_down_def maxRetries_def
      MAX_PAGES_def transient_def send_def log_event_def accept_def page_of_def after_two_pages_def)

section \<open>The claims about the fetch stage\<close>

lemma fetchPage_failure:
  assumes "\<forall>i<4. attempt_fails up st i"
  shows "\<exists>st'. fetchPage up st 0 = (st', False) \<and> allOrders st' = allOrders st \<and> pageCount st' = pageCount st"
proof -
  obtain st' ok where r: "fetchPage up st 0 = (st', ok)"
    by (cases "fetchPage up st 0")
  from fetchPage_attempts [OF r] assms have "\<not> ok" "allOrders st' = allOrders st" "pageCount st' = pageCount st"
    by auto
  with r show ?thesis by simp
qed

lemma fetchOrders_failure:
  assumes "\<forall>i<4. attempt_fails up st i"
  shows "allOrders (fetchOrders up st) = allOrders st" "pageCount (fetchOrders up st) = pageCount st"
  using fetchPage_failure [OF assms]
  by (auto simp: fetchOrders.simps [of up st])

lemma all_less_4: "(\<forall>i<4::nat. P i) \<longleftrightarrow> P 0 \<and> P 1 \<and> P 2 \<and> P 3"
proof
  assume "\<forall>i<4. P i"
  then show "P 0 \<and> P 1 \<and> P 2 \<and> P 3" by simp
next
  assume a: "P 0 \<and> P 1 \<and> P 2 \<and> P 3"
  show "\<forall>i<4. P i"
  proof (intro allI impI)
    fix i :: nat
    assume "i < 4"
    then have "i = 0 \<or> i = 1 \<or> i = 2 \<or> i = 3" by arith
    with a show "P i" by auto
  qed
qed

lemma fetchPage_success:
  "fetchPage up st r = (st', True) \<Longrightarrow> pageCount st' = Suc (pageCount st)"
proof (induction up st r rule: fetchPage.induct)
  case (1 up st r)
  then show ?case
    by (subst (asm) (3) fetchPage.simps)
       (auto simp: accept_def send_def log_event_def Let_def split: if_splits sum.splits)
qed

lemma after_pages_fetchOrders:
  "after_pages up k st = Some st' \<Longrightarrow> fetchOrders up st = fetchOrders up st'"
proof (induction k arbitrary: st)
  case 0
  then show ?case by simp
next
  case (Suc k)
  from Suc.prems have c: "hasNext st \<and> pageCount st < MAX_PAGES"
    by (simp split: if_splits)
  obtain st1 ok where p: "fetchPage up st 0 = (st1, ok)"
    by (cases "fetchPage up st 0")
  with Suc.prems c have ok: "ok" and rest: "after_pages up k st1 = Some st'"
    by (simp_all split: if_splits)
  have "fetchOrders up st = fetchOrders up st1"
    using c p ok by (simp add: fetchOrders.simps [of up st])
  with Suc.IH [OF rest] show ?case by simp
qed

lemma after_pages_pageCount:
  "after_pages up k st = Some st' \<Longrightarrow> pageCount st' = pageCount st + k"
proof (induction k arbitrary: st)
  case 0
  then show ?case by simp
next
  case (Suc k)
  from Suc.prems have c: "hasNext st \<and> pageCount st < MAX_PAGES"
    by (simp split: if_splits)
  obtain st1 ok where p: "fetchPage up st 0 = (st1, ok)"
    by (cases "fetchPage up st 0")
  with Suc.prems c have ok: "ok" and rest: "after_pages up k st1 = Some st'"
    by (simp_all split: if_splits)
  from p ok have "pageCount st1 = Suc (pageCount st)"
    by (simp add: fetchPage_success)
  with Suc.IH [OF rest] show ?case by simp
qed

lemma processAnalyticsData_Nil: "processAnalyticsData [] = Inr empty_summary"
  by (simp add: processAnalyticsData_def finish_def init_acc_def empty_summary_def segment_counts_def)

lemma respond_Nil:
  "respond s [] SideRejected SideRejected =
     Inr \<lparr>analytics_of = empty_summary, products = [], locations = [], shop = s\<rparr>"
  by (simp add: respond_def processAnalyticsData_Nil side_edges_def)

text \<open>
  Claim C1, as the loader has it. When the loop has fetched \<open>k\<close> pages and all four
  attempts at the next page fail, the loop ends with the orders of those \<open>k\<close> pages and
  the page count \<open>k\<close>, and the loader goes on with these orders as it does after a
  complete fetch. With \<open>k = 0\<close>, the failure of the very first page, the orders are none
  and the loader returns the summary of no orders.
\<close>

theorem fetch_failure_degrades:
  "after_pages up k init_fetch = Some st \<Longrightarrow> \<forall>i<4. attempt_fails up st i \<Longrightarrow>
     allOrders (fetchOrders up init_fetch) = allOrders st \<and>
     pageCount (fetchOrders up init_fetch) = k \<and>
     loader s up (pr :: 'p side_response) (lr :: 'l side_response) =
       respond s (allOrders st) pr lr \<and>
     (k = 0 \<longrightarrow>
        allOrders st = [] \<and>
        loader s up (SideRejected :: 'p side_response) (SideRejected :: 'l side_response) =
          Inr \<lparr>analytics_of = empty_summary, products = [], locations = [], shop = s\<rparr>)"
proof -
  assume a: "after_pages up k init_fetch = Some st" and f: "\<forall>i<4. attempt_fails up st i"
  have e: "fetchOrders up init_fetch = fetchOrders up st"
    using a by (rule after_pages_fetchOrders)
  have o: "allOrders (fetchOrders up init_fetch) = allOrders st"
    unfolding e using f by (rule fetchOrders_failure(1))
  have "pageCount (fetchOrders up init_fetch) = pageCount st"
    unfolding e using f by (rule fetchOrders_failure(2))
  moreover have "pageCount st = k"
    using after_pages_pageCount [OF a] by (simp add: init_fetch_def)
  moreover have "loader s up pr lr = respond s (allOrders st) pr lr"
    by (simp add: loader_def o)
  moreover have "allOrders st = [] \<and>
        loader s up (SideRejected :: 'p side_response) (SideRejected :: 'l side_response) =
          Inr \<lparr>analytics_of = empty_summary, products = [], locations = [], shop = s\<rparr>" if "k = 0"
  proof -
    from a that have "allOrders st = []"
      by (auto simp: init_fetch_def)
    then show ?thesis
      by (simp add: loader_def o respond_Nil)
  qed
  ultimately show ?thesis
    using o by blast
qed

theorem fetch_failure_degrades_witness:
  "after_pages two_pages_then_down 2 init_fetch = Some after_two_pages \<and>
   attempt_fails two_pages_then_down after_two_pages 0 \<and>
   attempt_fails two_pages_then_down after_two_pages 1 \<and>
   attempt_fails two_pages_then_down after_two_pages 2 \<and>
   attempt_fails two_pages_then_down after_two_pages 3 \<and>
   allOrders (fetchOrders two_pages_then_down init_fetch) = [orderA, orderB, orderC] \<and>
   pageCount (fetchOrders two_pages_then_down init_fetch) = 2 \<and>
   loader ''shop'' two_pages_then_down (SideRejected :: unit side_response)
       (SideRejected :: unit side_response) =
     respond ''shop'' [orderA, orderB, orderC] SideRejected SideRejected \<and>
   map_sum id (totalOrders \<circ> analytics_of)
     (loader ''shop'' two_pages_then_down (SideRejected :: unit side_response)
        (SideRejected :: unit side_response)) = Inr 3 \<and>
   after_pages always_fetch_failed 0 init_fetch = Some init_fetch \<and>
   attempt_fails always_fetch_failed init_fetch 0 \<and>
   attempt_fails always_fetch_failed init_fetch 1 \<and>
   attempt_fails always_fetch_failed init_fetch 2 \<and>
   attempt_fails always_fetch_failed init_fetch 3 \<and>
   allOrders (fetchOrders always_fetch_failed init_fetch) = [] \<and>
   loader ''shop'' always_fetch_failed (SideRejected :: unit side_response)
       (SideRejected :: unit side_response) =
     Inr \<lparr>analytics_of = empty_summary, products = [], locations = [], shop = ''shop''\<rparr>"
proof -
  note p = two_pages_run
  have f: "attempt_fails two_pages_then_down after_two_pages 0"
    "attempt_fails two_pages_then_down after_two_pages 1"
    "attempt_fails two_pages_then_down after_two_pages 2"
    "attempt_fails two_pages_then_down after_two_pages 3"
    by (simp_all add: attempt_fails_def attempt_error_def two_pages_then_down_def after_two_pages_def)
  then have all: "\<forall>i<4. attempt_fails two_pages_then_down after_two_pages i"
    by (simp add: all_less_4)
  have o: "allOrders after_two_pages = [orderA, orderB, orderC]"
    by (simp add: after_two_pages_def)
  have n: "map_sum id (totalOrders \<circ> analytics_of)
     (respond ''shop'' [orderA, orderB, orderC] (SideRejected :: unit side_response)
        (SideRejected :: unit side_response)) = Inr 3"
    by (simp add: respond_def side_edges_def processAnalyticsData_def processOrder_def addItem_def
        finish_def orderA_def orderB_def orderC_def init_acc_def Let_def)
  have p0: "after_pages always_fetch_failed 0 init_fetch = Some init_fetch"
    by simp
  have f0: "attempt_fails always_fetch_failed init_fetch 0"
    "attempt_fails always_fetch_failed init_fetch 1"
    "attempt_fails always_fetch_failed init_fetch 2"
    "attempt_fails always_fetch_failed init_fetch 3"
    by (simp_all add: attempt_fails_def attempt_error_def always_fetch_failed_def)
  then have all0: "\<forall>i<4. attempt_fails always_fetch_failed init_fetch i"
    by (simp add: all_less_4)
  have o0: "allOrders init_fetch = []"
    by (simp add: init_fetch_def)
  note two = fetch_failure_degrades [OF p all, of "''shop''" "SideRejected :: unit side_response"
        "SideRejected :: unit side_response"]
  note none = fetch_failure_degrades [OF p0 all0, of "''shop''" "SideRejected :: unit side_response"
        "SideRejected :: unit side_response"]
  from two o have t1: "allOrders (fetchOrders two_pages_then_down init_fetch) = [orderA, orderB, orderC]"
    by simp
  from two have t2: "pageCount (fetchOrders two_pages_then_down init_fetch) = 2"
    by blast
  from two o have t3: "loader ''shop'' two_pages_then_down (SideRejected :: unit side_response)
       (SideRejected :: unit side_response) =
     respond ''shop'' [orderA, orderB, orderC] SideRejected SideRejected"
    by simp
  have t4: "map_sum id (totalOrders \<circ> analytics_of)
     (loader ''shop'' two_pages_then_down (SideRejected :: unit side_response)
        (SideRejected :: unit side_response)) = Inr 3"
    unfolding t3 by (rule n)
  from none o0 have z1: "allOrders (fetchOrders always_fetch_failed init_fetch) = []"
    by simp
  from none have z2: "loader ''shop'' always_fetch_failed (SideRejected :: unit side_response)
       (SideRejected :: unit side_response) =
     Inr \<lparr>analytics_of = empty_summary, products = [], locations = [], shop = ''shop''\<rparr>"
    by blast
  show ?thesis
    using p f p0 f0 t1 t2 t3 t4 z1 z2 by blast
qed

text \<open>
  Claim C1 as stated fails: when every attempt at the very first page fails, the loader
  still returns, with the summary of the empty order sequence.
\<close>

theorem first_page_failure_counterexample:
  "attempt_fails always_fetch_failed init_fetch 0 \<and>
   attempt_fails always_fetch_failed init_fetch 1 \<and>
   attempt_fails always_fetch_failed init_fetch 2 \<and>
   attempt_fails always_fetch_failed init_fetch 3 \<and>
   pageCount (fetchOrders always_fetch_failed init_fetch) = 0 \<and>
   requests (trace (fetchOrders always_fetch_failed init_fetch)) = 4 \<and>
   loader ''shop'' always_fetch_failed (SideRejected :: unit side_response)
       (SideRejected :: unit side_response) =
     Inr \<lparr>analytics_of = empty_summary, products = [], locations = [], shop = ''shop''\<rparr>"
  by (simp add: loader_def respond_Nil attempt_fails_def attempt_error_def fetchOrders.simps
      fetchPage.simps init_fetch_def always_fetch_failed_def maxRetries_def MAX_PAGES_def
      transient_def send_def log_event_def)

text \<open>
  Claim C2, as the loader has it. A page takes at most four requests. The page is given up
  only after four failed attempts; it succeeds on the first attempt that does not fail, and
  every failed attempt before it was followed by another request, whatever the failure
  was.
\<close>

theorem every_failure_is_retried:
  "fetchPage up st 0 = (st', success) \<Longrightarrow>
     (\<exists>new. trace st' = trace st @ new \<and> requests new \<le> 4 \<and>
        (\<not> success \<longrightarrow> requests new = 4 \<and> (\<forall>i<4. attempt_fails up st i)) \<and>
        (success \<longrightarrow> (\<forall>i<requests new - 1. attempt_fails up st i)
            \<and> \<not> attempt_fails up st (requests new - 1)))"
proof -
  assume a: "fetchPage up st 0 = (st', success)"
  from fetchPage_trace [OF a] obtain new where new: "trace st' = trace st @ new"
    "requests new = calls st' - calls st"
    by auto
  from fetchPage_attempts [OF a] new(2) have
    "requests new \<le> 4 \<and>
        (\<not> success \<longrightarrow> requests new = 4 \<and> (\<forall>i<4. attempt_fails up st i)) \<and>
        (success \<longrightarrow> (\<forall>i<requests new - 1. attempt_fails up st i)
            \<and> \<not> attempt_fails up st (requests new - 1))"
    by (cases success) auto
  with new(1) show ?thesis by blast
qed

theorem every_failure_is_retried_witness:
  "fetchPage mixed_failures init_fetch 0 = (after_mixed_failures, True) \<and>
   requests (trace after_mixed_failures) = 4 \<and>
   attempt_error mixed_failures init_fetch 2 = Some ''Invalid GraphQL response structure'' \<and>
   \<not> transient ''Invalid GraphQL response structure'' \<and>
   attempt_fails mixed_failures init_fetch 0 \<and>
   attempt_fails mixed_failures init_fetch 1 \<and>
   attempt_fails mixed_failures init_fetch 2 \<and>
   \<not> attempt_fails mixed_failures init_fetch 3"
proof -
  note h = mixed_failures_run
  have t: "trace init_fetch = []" "requests (trace after_mixed_failures) = 4"
    by (simp_all add: init_fetch_def after_mixed_failures_def)
  have e: "attempt_error mixed_failures init_fetch 2 = Some ''Invalid GraphQL response structure''"
    "\<not> transient ''Invalid GraphQL response structure''"
    by (simp_all add: attempt_error_def mixed_failures_def init_fetch_def transient_def)
  from every_failure_is_retried [OF h] t
  have "(\<forall>i<3. attempt_fails mixed_failures init_fetch i) \<and> \<not> attempt_fails mixed_failures init_fetch 3"
    by auto
  then have "attempt_fails mixed_failures init_fetch 0 \<and> attempt_fails mixed_failures init_fetch 1 \<and>
    attempt_fails mixed_failures init_fetch 2 \<and> \<not> attempt_fails mixed_failures init_fetch 3"
    by simp
  with h t e show ?thesis by simp
qed

text \<open>
  Claim C2 as stated fails: a body without \<open>data.orders\<close> is not a transient failure,
  and it is retried three times, after 3000, 6000 and 9000 ms.
\<close>

theorem nontransient_failure_counterexample:
  "tryBody (always_malformed 0 None) = Inl ''Invalid GraphQL response structure'' \<and>
   \<not> transient ''Invalid GraphQL response structure'' \<and>
   trace (fst (fetchPage always_malformed init_fetch 0)) =
     [Request None, Backoff 3000, Request None, Backoff 6000, Request None, Backoff 9000,
      Request None] \<and>
   \<not> snd (fetchPage always_malformed init_fetch 0)"
  by (simp add: fetchPage.simps init_fetch_def always_malformed_def maxRetries_def transient_def
      send_def log_event_def)

text \<open>
  Claim C4, as the loader has it. The wait after the \<open>i\<close>-th failed attempt of a page
  (\<open>i\<close> from 1 to 3) is \<open>base * i\<close>, with base 4000 for a message that contains
  \<open>Throttled\<close> or \<open>fetch failed\<close> and base 3000 for every other message.
\<close>

theorem backoff_is_linear:
  "fetchPage up st 0 = (st', success) \<Longrightarrow>
     (\<exists>new. trace st' = trace st @ new \<and> requests new - 1 \<le> 3 \<and>
        backoffs new =
          map (\<lambda>i. backoff_base (attempt_error up st i) * Suc i) [0..<requests new - 1]) \<and>
     (\<forall>msg. backoff_base (Some msg) = (if transient msg then 4000 else 3000)) \<and>
     transient ''Throttled'' \<and> transient ''fetch failed''"
proof -
  assume a: "fetchPage up st 0 = (st', success)"
  from fetchPage_trace [OF a] obtain new where new: "trace st' = trace st @ new"
    "requests new = calls st' - calls st"
    "backoffs new = map (\<lambda>i. backoff_base (attempt_error up st i) * (0 + Suc i)) [0..<calls st' - Suc (calls st)]"
    by auto
  from fetchPage_attempts [OF a] new(2) have "requests new - 1 \<le> 3"
    by (cases success) auto
  moreover from new(2,3) have "backoffs new =
          map (\<lambda>i. backoff_base (attempt_error up st i) * Suc i) [0..<requests new - 1]"
    by simp
  moreover have "transient ''Throttled''" "transient ''fetch failed''"
    by (simp_all add: transient_def)
  ultimately show ?thesis
    using new(1) by (auto simp: backoff_base_def)
qed

theorem backoff_is_linear_witness:
  "fetchPage mixed_failures init_fetch 0 = (after_mixed_failures, True) \<and>
   backoffs (trace after_mixed_failures) =
     [backoff_base (attempt_error mixed_failures init_fetch 0) * 1,
      backoff_base (attempt_error mixed_failures init_fetch 1) * 2,
      backoff_base (attempt_error mixed_failures init_fetch 2) * 3] \<and>
   backoffs (trace after_mixed_failures) = [4000, 8000, 9000]"
proof -
  note h = mixed_failures_run
  have t: "trace init_fetch = []" "requests (trace after_mixed_failures) = 4"
    "backoffs (trace after_mixed_failures) = [4000, 8000, 9000]"
    by (simp_all add: init_fetch_def after_mixed_failures_def)
  have u: "[0..<3] = [0, 1, 2]"
    by (simp add: upt_conv_Cons)
  from backoff_is_linear [OF h] t u
  have "backoffs (trace after_mixed_failures) =
     [backoff_base (attempt_error mixed_failures init_fetch 0) * 1,
      backoff_base (attempt_error mixed_failures init_fetch 1) * 2,
      backoff_base (attempt_error mixed_failures init_fetch 2) * 3]"
    by auto
  with h t show ?thesis by simp
qed

text \<open>
  Claim C4 as stated fails: a throttling and a network failure (\<open>fetch failed\<close>) wait
  the same 4000, 8000 and 12000 ms; the base of the one is not larger than that of the
  other.
\<close>

theorem throttling_base_counterexample:
  "backoffs (trace (fst (fetchPage always_throttled init_fetch 0))) = [4000, 8000, 12000] \<and>
   backoffs (trace (fst (fetchPage always_fetch_failed init_fetch 0))) = [4000, 8000, 12000] \<and>
   \<not> backoff_base (Some ''fetch failed'') < backoff_base (Some ''Throttled'')"
  by (simp add: fetchPage.simps init_fetch_def always_throttled_def always_fetch_failed_def
      maxRetries_def transient_def send_def log_event_def backoff_base_def)


section \<open>The claims about the aggregation stage\<close>

subsection \<open>When a summary is produced, and from what\<close>

lemma addItem_isl: "isl (addItem m item) \<longleftrightarrow> missing_variant item"
  by (simp add: addItem_def missing_variant_def Let_def split: option.splits)

lemma addItems_append:
  "addItems m (xs @ ys) = (case addItems m xs of Inl e \<Rightarrow> Inl e | Inr m' \<Rightarrow> addItems m' ys)"
  by (induction xs arbitrary: m) (simp_all split: sum.splits)

lemma addItems_isl: "isl (addItems m items) \<longleftrightarrow> (\<exists>item\<in>set items. missing_variant item)"
proof (induction items arbitrary: m)
  case Nil
  then show ?case by simp
next
  case (Cons item items)
  show ?case
  proof (cases "addItem m item")
    case (Inl e)
    with addItem_isl [of m item] show ?thesis by simp
  next
    case (Inr m')
    with addItem_isl [of m item] Cons [of m'] show ?thesis by simp
  qed
qed

lemma processOrder_Inr:
  assumes "processOrder st ord = Inr st'"
  shows "monthlyStats st' = addMonth (monthlyStats st) ord"
    and "customerOrders st' = addCustomer (customerOrders st) ord"
    and "locationStats st' = addLocation (locationStats st) ord"
    and "revenueSum st' = js_add (revenueSum st) (amount ord)"
    and "fulfilledCount st' =
      fulfilledCount st + (if displayFulfillmentStatus ord = ''FULFILLED'' then 1 else 0)"
    and "paidCount st' = paidCount st + (if displayFinancialStatus ord = ''PAID'' then 1 else 0)"
    and "addItems (productStats st) (lineItems ord) = Inr (productStats st')"
  using assms by (auto simp: processOrder_def split: sum.splits)

lemma processOrder_isl:
  "isl (processOrder st ord) \<longleftrightarrow> (\<exists>item\<in>set (lineItems ord). missing_variant item)"
  using addItems_isl [of "productStats st" "lineItems ord"]
  by (cases "addItems (productStats st) (lineItems ord)") (simp_all add: processOrder_def)

lemma processOrders_Inr:
  "processOrders st os = Inr st' \<Longrightarrow>
     monthlyStats st' = foldl addMonth (monthlyStats st) os \<and>
     customerOrders st' = foldl addCustomer (customerOrders st) os \<and>
     locationStats st' = foldl addLocation (locationStats st) os \<and>
     revenueSum st' = foldl js_add (revenueSum st) (map amount os) \<and>
     fulfilledCount st' =
       fulfilledCount st + length (filter (\<lambda>ord. displayFulfillmentStatus ord = ''FULFILLED'') os) \<and>
     paidCount st' =
       paidCount st + length (filter (\<lambda>ord. displayFinancialStatus ord = ''PAID'') os) \<and>
     addItems (productStats st) (allItems os) = Inr (productStats st')"
proof (induction os arbitrary: st)
  case Nil
  then show ?case by (simp add: allItems_def)
next
  case (Cons ord os)
  from Cons.prems obtain st1 where s1: "processOrder st ord = Inr st1"
    and rest: "processOrders st1 os = Inr st'"
    by (auto split: sum.splits)
  note h = processOrder_Inr [OF s1]
  from Cons.IH [OF rest] h show ?case
    by (simp add: allItems_def addItems_append)
qed

lemma processOrders_isl:
  "isl (processOrders st os) \<longleftrightarrow> (\<exists>item\<in>set (allItems os). missing_variant item)"
proof (induction os arbitrary: st)
  case Nil
  then show ?case by (simp add: allItems_def)
next
  case (Cons ord os)
  show ?case
  proof (cases "processOrder st ord")
    case (Inl e)
    with processOrder_isl [of st ord] show ?thesis by (auto simp: allItems_def)
  next
    case (Inr st1)
    with processOrder_isl [of st ord] Cons [of st1] show ?thesis
      by (auto simp: allItems_def)
  qed
qed

lemma produced_iff:
  "(\<exists>a. processAnalyticsData os = Inr a) \<longleftrightarrow> (\<forall>item\<in>set (allItems os). \<not> missing_variant item)"
  using processOrders_isl [of init_acc os]
  by (cases "processOrders init_acc os") (simp_all add: processAnalyticsData_def)

lemma missing_variant_rejects:
  "missing_variant (hd (lineItems orderV))"
  "processAnalyticsData [orderV] = Inl TypeError"
  "respond s [orderV] pr lr = Inl TypeError"
  by (simp_all add: respond_def processAnalyticsData_def processOrder_def addItem_def
      missing_variant_def orderV_def init_acc_def)

lemma produced:
  assumes "processAnalyticsData os = Inr a"
  obtains st where "processOrders init_acc os = Inr st" "a = finish (length os) st"
  using assms by (auto simp: processAnalyticsData_def split: sum.splits)

lemma summary_fields:
  assumes "processAnalyticsData os = Inr a"
  shows totalOrders_eq: "totalOrders a = length os"
    and totalRevenue_eq: "totalRevenue a = foldl js_add (Fin 0) (map amount os)"
    and fulfilledOrders_eq:
      "fulfilledOrders a = length (filter (\<lambda>ord. displayFulfillmentStatus ord = ''FULFILLED'') os)"
    and paidOrders_eq:
      "paidOrders a = length (filter (\<lambda>ord. displayFinancialStatus ord = ''PAID'') os)"
    and monthlyData_eq: "monthlyData a = foldl addMonth (monthlyStats init_acc) os"
    and customerSegments_eq: "customerSegments a = segment_counts (foldl addCustomer [] os)"
    and locationData_eq:
      "locationData a = take 10 (sort_key (\<lambda>e. - int (orders (snd e))) (foldl addLocation [] os))"
    and averageOrderValue_eq:
      "averageOrderValue a =
         (if os = [] then Fin 0 else js_div (totalRevenue a) (num_of_nat (length os)))"
proof -
  from assms obtain st where st: "processOrders init_acc os = Inr st" "a = finish (length os) st"
    by (rule produced)
  note f = processOrders_Inr [OF st(1)]
  show "totalOrders a = length os"
    by (simp add: st(2) finish_def)
  show "totalRevenue a = foldl js_add (Fin 0) (map amount os)"
    using f by (simp add: st(2) finish_def init_acc_def)
  show "fulfilledOrders a = length (filter (\<lambda>ord. displayFulfillmentStatus ord = ''FULFILLED'') os)"
    using f by (simp add: st(2) finish_def init_acc_def)
  show "paidOrders a = length (filter (\<lambda>ord. displayFinancialStatus ord = ''PAID'') os)"
    using f by (simp add: st(2) finish_def init_acc_def)
  show "monthlyData a = foldl addMonth (monthlyStats init_acc) os"
    using f by (simp add: st(2) finish_def)
  show "customerSegments a = segment_counts (foldl addCustomer [] os)"
    using f by (simp add: st(2) finish_def init_acc_def)
  show "locationData a = take 10 (sort_key (\<lambda>e. - int (orders (snd e))) (foldl addLocation [] os))"
    using f by (simp add: st(2) finish_def init_acc_def)
  show "averageOrderValue a =
         (if os = [] then Fin 0 else js_div (totalRevenue a) (num_of_nat (length os)))"
    by (simp add: st(2) finish_def)
qed

lemma productData_eq:
  assumes "processAnalyticsData os = Inr a"
  obtains al where "addItems [] (allItems os) = Inr al"
    "productData a = take 10 (sort_key (\<lambda>s. - pquantity s) (map snd al))"
proof -
  from assms obtain st where st: "processOrders init_acc os = Inr st" "a = finish (length os) st"
    by (rule produced)
  from processOrders_Inr [OF st(1)] have "addItems [] (allItems os) = Inr (productStats st)"
    by (simp add: init_acc_def)
  moreover have "productData a = take 10 (sort_key (\<lambda>s. - pquantity s) (map snd (productStats st)))"
    by (simp add: st(2) finish_def)
  ultimately show ?thesis by (rule that)
qed

subsection \<open>The empty order sequence\<close>

lemma fl_one: "fl 1 = Fin 1"
  using fl_int_exact [of 1] by simp

text \<open>
  Claim C6: for no orders a summary is produced, and its average order value is \<open>0\<close>, as
  are the order count and the revenue; the quotient that the guard keeps from being
  computed would be \<open>NaN\<close>.
\<close>

theorem empty_orders_summary:
  "processAnalyticsData [] = Inr empty_summary \<and>
   averageOrderValue empty_summary = Fin 0 \<and>
   totalOrders empty_summary = 0 \<and>
   totalRevenue empty_summary = Fin 0 \<and>
   js_div (totalRevenue empty_summary) (num_of_nat (totalOrders empty_summary)) = NaN"
  by (simp add: processAnalyticsData_def finish_def init_acc_def empty_summary_def
      segment_counts_def num_of_nat_def fl_def)

subsection \<open>Monthly buckets\<close>

lemma showNat_nonempty: "showNat n \<noteq> []"
  by (subst showNat.simps) simp

lemma digit_inj:
  assumes "a < 10" "b < 10" "''0123456789'' ! a = ''0123456789'' ! b"
  shows "a = b"
proof -
  have d: "distinct ''0123456789''" by simp
  from assms show ?thesis
    using nth_eq_iff_index_eq [OF d, of a b] by simp
qed

lemma showNat_inj: "showNat a = showNat b \<Longrightarrow> a = b"
proof (induction a arbitrary: b rule: showNat.induct)
  case (1 n)
  show ?case
  proof (cases "n < 10")
    case True
    then have n: "showNat n = [''0123456789'' ! n]"
      by (subst showNat.simps) simp
    show ?thesis
    proof (cases "b < 10")
      case b: True
      then have "showNat b = [''0123456789'' ! b]"
        by (subst showNat.simps) simp
      with n "1.prems" True b show ?thesis
        using digit_inj [of n b] by simp
    next
      case b: False
      then have "showNat b = showNat (b div 10) @ [''0123456789'' ! (b mod 10)]"
        by (subst showNat.simps) simp
      with n "1.prems" showNat_nonempty [of "b div 10"] show ?thesis
        by (cases "showNat (b div 10)") simp_all
    qed
  next
    case False
    then have n: "showNat n = showNat (n div 10) @ [''0123456789'' ! (n mod 10)]"
      by (subst showNat.simps) simp
    show ?thesis
    proof (cases "b < 10")
      case b: True
      then have "showNat b = [''0123456789'' ! b]"
        by (subst showNat.simps) simp
      with n "1.prems" showNat_nonempty [of "n div 10"] show ?thesis
        by (cases "showNat (n div 10)") simp_all
    next
      case b: False
      then have "showNat b = showNat (b div 10) @ [''0123456789'' ! (b mod 10)]"
        by (subst showNat.simps) simp
      with n "1.prems" have e: "showNat (n div 10) = showNat (b div 10)"
        "''0123456789'' ! (n mod 10) = ''0123456789'' ! (b mod 10)"
        by simp_all
      from "1.IH" [OF False e(1)] have "n div 10 = b div 10" .
      moreover from e(2) have "n mod 10 = b mod 10"
        using digit_inj [of "n mod 10" "b mod 10"] by simp
      ultimately show ?thesis
        by (metis div_mult_mod_eq)
    qed
  qed
qed

lemma showNat_2025: "showNat 2025 = ''2025''"
  by (simp add: showNat.simps)

lemma length_short_month: "length (short_month m) = 3"
  by (cases m) simp_all

lemma label_2025: "toLocaleDateString d \<in> set months2025 \<longleftrightarrow> date_year d = 2025"
proof
  assume "date_year d = 2025"
  then show "toLocaleDateString d \<in> set months2025"
    by (cases "date_month d") (simp_all add: toLocaleDateString_def showNat_2025 months2025_def)
next
  assume a: "toLocaleDateString d \<in> set months2025"
  have "drop 4 l = ''2025''" if "l \<in> set months2025" for l
    using that by (auto simp: months2025_def)
  from this [OF a] have "showNat (date_year d) = ''2025''"
    by (simp add: toLocaleDateString_def length_short_month)
  then show "date_year d = 2025"
    using showNat_inj [of "date_year d" 2025] by (simp add: showNat_2025)
qed


lemma take_update_in:
  "k \<in> fst ` set (take n m) \<Longrightarrow> take n (AList.update k v m) = AList.update k v (take n m)"
proof (induction m arbitrary: n)
  case Nil
  then show ?case by simp
next
  case (Cons p m)
  then show ?case by (cases n) auto
qed

lemma map_of_take_in:
  "k \<in> fst ` set (take n m) \<Longrightarrow> map_of (take n m) k = map_of m k"
proof (induction m arbitrary: n)
  case Nil
  then show ?case by simp
next
  case (Cons p m)
  then show ?case by (cases n) auto
qed

lemma take_update_out:
  "k \<notin> fst ` set (take n m) \<Longrightarrow> n \<le> length m \<Longrightarrow> take n (AList.update k v m) = take n m"
proof (induction m arbitrary: n)
  case Nil
  then show ?case by simp
next
  case (Cons p m)
  then show ?case by (cases n) auto
qed

lemma length_update: "length m \<le> length (AList.update k v m)"
  by (induction m) auto

lemma take_bump_in:
  "k \<in> fst ` set (take n m) \<Longrightarrow> take n (bump_stats a m k) = bump_stats a (take n m) k"
  by (simp add: bump_stats_def Let_def take_update_in map_of_take_in)

lemma take_bump_out:
  "k \<notin> fst ` set (take n m) \<Longrightarrow> n \<le> length m \<Longrightarrow> take n (bump_stats a m k) = take n m"
  by (simp add: bump_stats_def Let_def take_update_out)

lemma keys_bump_in: "k \<in> fst ` set m \<Longrightarrow> map fst (bump_stats a m k) = map fst m"
  by (simp add: bump_stats_def Let_def AList.update_keys)

lemma map_of_bump:
  "map_of (bump_stats a m k) k' =
     (if k' = k
      then Some \<lparr>orders = orders (case map_of m k of None \<Rightarrow> zero_stats | Some d \<Rightarrow> d) + 1,
                  revenue = js_add (revenue (case map_of m k of None \<Rightarrow> zero_stats | Some d \<Rightarrow> d)) a\<rparr>
      else map_of m k')"
  by (simp add: bump_stats_def Let_def AList.update_conv')

lemma first12_length: "map fst (take 12 m) = months2025 \<Longrightarrow> 12 \<le> length m"
proof -
  assume "map fst (take 12 m) = months2025"
  then have "length (map fst (take 12 m)) = length months2025"
    by simp
  then show ?thesis
    by (simp add: months2025_def)
qed


lemma addMonth_cases:
  "addMonth m ord = (case monthLabel ord of None \<Rightarrow> m | Some l \<Rightarrow> bump_stats (amount ord) m l)"
  by (simp add: addMonth_def monthLabel_def split: option.splits)

lemma monthLabel_2025:
  "monthLabel ord = Some l \<Longrightarrow> l \<in> set months2025 \<longleftrightarrow> \<not> outside2025 ord"
  by (auto simp: monthLabel_def outside2025_def label_2025 split: option.splits)

lemma monthLabel_None: "monthLabel ord = None \<Longrightarrow> \<not> outside2025 ord"
  by (simp add: monthLabel_def outside2025_def split: option.splits)

lemma first12_addMonth:
  assumes "map fst (take 12 m) = months2025"
  shows "map fst (take 12 (addMonth m ord)) = months2025"
proof (cases "monthLabel ord")
  case None
  with assms show ?thesis by (simp add: addMonth_cases)
next
  case (Some l)
  show ?thesis
  proof (cases "l \<in> fst ` set (take 12 m)")
    case True
    then have "take 12 (bump_stats (amount ord) m l) = bump_stats (amount ord) (take 12 m) l"
      by (rule take_bump_in)
    with True assms Some show ?thesis
      by (simp add: addMonth_cases keys_bump_in)
  next
    case False
    with first12_length [OF assms] have "take 12 (bump_stats (amount ord) m l) = take 12 m"
      by (simp add: take_bump_out)
    with assms Some show ?thesis
      by (simp add: addMonth_cases)
  qed
qed

lemma first12_foldl:
  "map fst (take 12 m) = months2025 \<Longrightarrow> map fst (take 12 (foldl addMonth m os)) = months2025"
  by (induction os arbitrary: m) (simp_all add: first12_addMonth)

lemma first12_init: "map fst (take 12 (monthlyStats init_acc)) = months2025"
  by (simp add: init_acc_def months2025_def)

lemma first12_ignore_outside:
  assumes "map fst (take 12 m1) = months2025" "take 12 m1 = take 12 m2"
  shows "take 12 (foldl addMonth m1 os) =
         take 12 (foldl addMonth m2 (filter (\<lambda>ord. \<not> outside2025 ord) os))"
  using assms
proof (induction os arbitrary: m1 m2)
  case Nil
  then show ?case by simp
next
  case (Cons ord os)
  have k2: "map fst (take 12 m2) = months2025"
    using Cons.prems by simp
  show ?case
  proof (cases "monthLabel ord")
    case None
    then have "addMonth m1 ord = m1" "addMonth m2 ord = m2"
      by (simp_all add: addMonth_cases)
    with Cons monthLabel_None [OF None] show ?thesis
      by simp
  next
    case (Some l)
    show ?thesis
    proof (cases "outside2025 ord")
      case True
      with monthLabel_2025 [OF Some] have "l \<notin> set months2025" by simp
      with Cons.prems(1) have "l \<notin> fst ` set (take 12 m1)"
        by (metis set_map)
      with first12_length [OF Cons.prems(1)]
      have "take 12 (addMonth m1 ord) = take 12 m1"
        by (simp add: addMonth_cases Some take_bump_out)
      moreover have "map fst (take 12 (addMonth m1 ord)) = months2025"
        using Cons.prems(1) by (rule first12_addMonth)
      ultimately show ?thesis
        using Cons.IH [of "addMonth m1 ord" m2] Cons.prems(2) True by simp
    next
      case False
      with monthLabel_2025 [OF Some] have "l \<in> set months2025" by simp
      with Cons.prems(1) k2 have "l \<in> fst ` set (take 12 m1)" "l \<in> fst ` set (take 12 m2)"
        by (metis set_map)+
      then have "take 12 (addMonth m1 ord) = take 12 (addMonth m2 ord)"
        using Cons.prems(2) by (simp add: addMonth_cases Some take_bump_in)
      moreover have "map fst (take 12 (addMonth m1 ord)) = months2025"
        using Cons.prems(1) by (rule first12_addMonth)
      ultimately show ?thesis
        using Cons.IH [of "addMonth m1 ord" "addMonth m2 ord"] False by simp
    qed
  qed
qed

lemma month_orders:
  "map_option orders (map_of (foldl addMonth m os) k) =
     (case map_of m k of
        None \<Rightarrow> if monthCount k os = 0 then None else Some (monthCount k os)
      | Some s \<Rightarrow> Some (orders s + monthCount k os))"
proof (induction os arbitrary: m)
  case Nil
  then show ?case by (simp add: monthCount_def split: option.splits)
next
  case (Cons ord os)
  show ?case
  proof (cases "monthLabel ord = Some k")
    case True
    then have step: "addMonth m ord = bump_stats (amount ord) m k"
      by (simp add: addMonth_cases)
    have c: "monthCount k (ord # os) = Suc (monthCount k os)"
      using True by (simp add: monthCount_def)
    show ?thesis
      unfolding c
      by (simp add: step Cons.IH [of "bump_stats (amount ord) m k"] map_of_bump zero_stats_def
          split: option.splits)
  next
    case False
    then have c: "monthCount k (ord # os) = monthCount k os"
      by (simp add: monthCount_def)
    from False have "map_of (addMonth m ord) k = map_of m k"
      by (cases "monthLabel ord") (simp_all add: addMonth_cases map_of_bump)
    then show ?thesis
      unfolding c by (simp add: Cons.IH [of "addMonth m ord"])
  qed
qed

lemma month_untouched:
  "monthCount k os = 0 \<Longrightarrow> map_of (foldl addMonth m os) k = map_of m k"
proof (induction os arbitrary: m)
  case Nil
  then show ?case by simp
next
  case (Cons ord os)
  from Cons.prems have n: "monthLabel ord \<noteq> Some k" "monthCount k os = 0"
    by (auto simp: monthCount_def split: if_splits)
  from n(1) have "map_of (addMonth m ord) k = map_of m k"
    by (cases "monthLabel ord") (simp_all add: addMonth_cases map_of_bump)
  with Cons.IH [OF n(2), of "addMonth m ord"] show ?case by simp
qed

lemma map_of_init_months:
  "k \<in> set months2025 \<Longrightarrow> map_of (monthlyStats init_acc) k = Some zero_stats"
  by (auto simp: init_acc_def months2025_def)


lemma distinct_months_foldl:
  "distinct (map fst m) \<Longrightarrow> distinct (map fst (foldl addMonth m os))"
proof (induction os arbitrary: m)
  case Nil
  then show ?case by simp
next
  case (Cons ord os)
  have "distinct (map fst (addMonth m ord))"
    using Cons.prems
    by (cases "monthLabel ord") (simp_all add: addMonth_cases bump_stats_def Let_def AList.distinct_update)
  then show ?case using Cons.IH by simp
qed


lemma produced_filter:
  assumes "processAnalyticsData os = Inr a"
  shows "\<exists>a'. processAnalyticsData (filter P os) = Inr a'"
proof -
  from assms have "\<forall>item\<in>set (allItems os). \<not> missing_variant item"
    using produced_iff [of os] by blast
  moreover have "set (allItems (filter P os)) \<subseteq> set (allItems os)"
    by (auto simp: allItems_def)
  ultimately show ?thesis
    using produced_iff [of "filter P os"] by blast
qed

text \<open>
  Claim C5: whatever the orders, the monthly collection of the summary starts with the twelve
  months of 2025 in calendar order, each label once; the entry of each of them counts the
  orders of that month, and is the zero entry when the month has no order. For no orders a
  summary is produced, with the twelve zero entries as its collection.
\<close>

theorem twelve_months_present:
  "processAnalyticsData os = Inr a \<Longrightarrow>
     map fst (take 12 (monthlyData a)) = months2025 \<and>
     distinct (map fst (monthlyData a)) \<and>
     (\<forall>m\<in>set months2025.
        map_option orders (map_of (monthlyData a) m) = Some (monthCount m os) \<and>
        (monthCount m os = 0 \<longrightarrow> map_of (monthlyData a) m = Some zero_stats)) \<and>
     (\<exists>a0. processAnalyticsData [] = Inr a0 \<and>
        monthlyData a0 = map (\<lambda>m. (m, zero_stats)) months2025)"
proof -
  assume a: "processAnalyticsData os = Inr a"
  note md = monthlyData_eq [OF a]
  have "map fst (take 12 (monthlyData a)) = months2025"
    by (simp add: md first12_foldl first12_init)
  moreover have "distinct (map fst (monthlyData a))"
    unfolding md
    by (rule distinct_months_foldl) (simp add: init_acc_def months2025_def comp_def)
  moreover have "map_option orders (map_of (monthlyData a) m) = Some (monthCount m os) \<and>
        (monthCount m os = 0 \<longrightarrow> map_of (monthlyData a) m = Some zero_stats)"
    if m: "m \<in> set months2025" for m
    by (simp add: md month_orders month_untouched map_of_init_months [OF m] zero_stats_def)
  moreover have "\<exists>a0. processAnalyticsData [] = Inr a0 \<and>
        monthlyData a0 = map (\<lambda>m. (m, zero_stats)) months2025"
    by (simp add: processAnalyticsData_def finish_def init_acc_def)
  ultimately show ?thesis by blast
qed

lemma monthLabel_examples:
  "monthLabel orderA = Some ''Mar 2025''" "monthLabel orderB = Some ''Mar 2025''"
  "monthLabel orderC = Some ''Apr 2025''" "monthLabel orderX = Some ''Dec 2024''"
  by (simp_all add: monthLabel_def toLocaleDateString_def showNat.simps
      orderA_def orderB_def orderC_def orderX_def)

lemma no_missing_examples:
  "\<not> missing_variant item" if "item \<in> set (allItems [orderA, orderB, orderC, orderX])"
  using that by (auto simp: allItems_def missing_variant_def orderA_def orderB_def orderC_def
      orderX_def)

lemma produced_examples:
  assumes "set os \<subseteq> {orderA, orderB, orderC, orderX}"
  shows "processAnalyticsData os = Inr (projr (processAnalyticsData os))"
proof -
  have "set (allItems os) \<subseteq> set (allItems [orderA, orderB, orderC, orderX])"
    using assms by (auto simp: allItems_def)
  then have "\<forall>item\<in>set (allItems os). \<not> missing_variant item"
    using no_missing_examples by blast
  then obtain a where "processAnalyticsData os = Inr a"
    using produced_iff [of os] by blast
  then show ?thesis by simp
qed

theorem twelve_months_present_witness:
  "processAnalyticsData [orderA, orderB, orderC] =
     Inr (projr (processAnalyticsData [orderA, orderB, orderC])) \<and>
   ''Nov 2025'' \<in> set months2025 \<and> monthCount ''Nov 2025'' [orderA, orderB, orderC] = 0 \<and>
   map_of (monthlyData (projr (processAnalyticsData [orderA, orderB, orderC]))) ''Nov 2025'' =
     Some zero_stats \<and>
   ''Mar 2025'' \<in> set months2025 \<and>
   map_option orders
     (map_of (monthlyData (projr (processAnalyticsData [orderA, orderB, orderC]))) ''Mar 2025'') =
     Some 2"
proof -
  let ?a = "projr (processAnalyticsData [orderA, orderB, orderC])"
  have p: "processAnalyticsData [orderA, orderB, orderC] = Inr ?a"
    by (rule produced_examples) simp
  have m: "''Nov 2025'' \<in> set months2025" "''Mar 2025'' \<in> set months2025"
    by (simp_all add: months2025_def)
  have c: "monthCount ''Nov 2025'' [orderA, orderB, orderC] = 0"
    "monthCount ''Mar 2025'' [orderA, orderB, orderC] = 2"
    by (simp_all add: monthCount_def monthLabel_examples)
  from twelve_months_present [OF p]
  have b: "\<forall>m\<in>set months2025.
      map_option orders (map_of (monthlyData ?a) m) = Some (monthCount m [orderA, orderB, orderC]) \<and>
      (monthCount m [orderA, orderB, orderC] = 0 \<longrightarrow> map_of (monthlyData ?a) m = Some zero_stats)"
    by blast
  from bspec [OF b m(1)] bspec [OF b m(2)] m c p show ?thesis
    by simp
qed

text \<open>
  Claim C3, as the function has it. An order processed outside 2025 leaves the twelve
  entries of 2025 as they are without it: it is not clipped into any of them. It is
  recorded all the same, under an entry of its own month label after the twelve.
\<close>

theorem outside_year_orders:
  "processAnalyticsData os = Inr a \<Longrightarrow>
     (\<exists>a'. processAnalyticsData (filter (\<lambda>ord. \<not> outside2025 ord) os) = Inr a' \<and>
        take 12 (monthlyData a) = take 12 (monthlyData a')) \<and>
     (\<forall>ord\<in>set os. outside2025 ord \<longrightarrow>
        (\<exists>l. monthLabel ord = Some l \<and> l \<notin> set months2025 \<and>
             l \<in> fst ` set (drop 12 (monthlyData a)) \<and>
             map_option orders (map_of (monthlyData a) l) = Some (monthCount l os)))"
proof (intro conjI ballI impI)
  assume a: "processAnalyticsData os = Inr a"
  note md = monthlyData_eq [OF a]
  from produced_filter [OF a] obtain a'
    where a': "processAnalyticsData (filter (\<lambda>ord. \<not> outside2025 ord) os) = Inr a'"
    by blast
  have "take 12 (monthlyData a) = take 12 (monthlyData a')"
    unfolding md monthlyData_eq [OF a']
    by (rule first12_ignore_outside [OF first12_init refl])
  with a' show "\<exists>a'. processAnalyticsData (filter (\<lambda>ord. \<not> outside2025 ord) os) = Inr a' \<and>
        take 12 (monthlyData a) = take 12 (monthlyData a')"
    by blast
  fix ord assume ord: "ord \<in> set os" "outside2025 ord"
  let ?md = "monthlyData a"
  from ord(2) obtain l where l: "monthLabel ord = Some l"
    by (auto simp: outside2025_def monthLabel_def split: option.splits)
  with ord(2) monthLabel_2025 [OF l] have out: "l \<notin> set months2025"
    by simp
  then have none: "map_of (monthlyStats init_acc) l = None"
    by (simp add: init_acc_def map_of_eq_None_iff image_image)
  from ord(1) l have pos: "0 < monthCount l os"
    by (auto simp: monthCount_def filter_empty_conv)
  from month_orders [of "monthlyStats init_acc" os l] none pos
  have cnt: "map_option orders (map_of ?md l) = Some (monthCount l os)"
    by (simp add: md)
  then have "l \<in> fst ` set ?md"
    by (cases "map_of ?md l") (auto dest: map_of_SomeD intro: rev_image_eqI)
  moreover have "fst ` set ?md = fst ` set (take 12 ?md) \<union> fst ` set (drop 12 ?md)"
    by (metis append_take_drop_id image_Un set_append)
  moreover have "fst ` set (take 12 ?md) = set months2025"
    using first12_foldl [OF first12_init, of os] by (metis md set_map)
  ultimately have "l \<in> fst ` set (drop 12 ?md)"
    using out by auto
  with l out cnt show "\<exists>l. monthLabel ord = Some l \<and> l \<notin> set months2025 \<and>
           l \<in> fst ` set (drop 12 ?md) \<and>
           map_option orders (map_of ?md l) = Some (monthCount l os)"
    by blast
qed

theorem outside_year_orders_witness:
  "processAnalyticsData [orderA, orderX, orderC] =
     Inr (projr (processAnalyticsData [orderA, orderX, orderC])) \<and>
   orderX \<in> set [orderA, orderX, orderC] \<and> outside2025 orderX \<and>
   take 12 (monthlyData (projr (processAnalyticsData [orderA, orderX, orderC]))) =
     take 12 (monthlyData (projr (processAnalyticsData [orderA, orderC]))) \<and>
   ''Dec 2024'' \<in>
     fst ` set (drop 12 (monthlyData (projr (processAnalyticsData [orderA, orderX, orderC]))))"
proof -
  have p: "processAnalyticsData [orderA, orderX, orderC] =
      Inr (projr (processAnalyticsData [orderA, orderX, orderC]))"
    by (rule produced_examples) simp
  have x: "orderX \<in> set [orderA, orderX, orderC]" "outside2025 orderX"
    by (simp_all add: outside2025_def orderX_def)
  have f: "filter (\<lambda>ord. \<not> outside2025 ord) [orderA, orderX, orderC] = [orderA, orderC]"
    by (simp add: outside2025_def orderA_def orderX_def orderC_def)
  from outside_year_orders [OF p] x f monthLabel_examples(4) p
  show ?thesis by auto
qed

text \<open>
  Claim C3 as stated fails: one order processed in December 2024 gives a monthly collection
  of thirteen entries, the last one \<open>Dec 2024\<close> with that order.
\<close>

theorem outside_year_counterexample:
  "outside2025 orderX \<and>
   processAnalyticsData [orderX] =
     Inr (empty_summary
       \<lparr>totalOrders := 1, totalRevenue := Fin 75, averageOrderValue := Fin 75,
        fulfilledOrders := 1,
        monthlyData :=
          monthlyData empty_summary @ [(''Dec 2024'', \<lparr>orders = 1, revenue = Fin 75\<rparr>)],
        locationData := [(''Unknown'', \<lparr>orders = 1, revenue = Fin 75\<rparr>)]\<rparr>)"
  by (simp add: outside2025_def orderX_def processAnalyticsData_def finish_def processOrder_def
      addItem_def init_acc_def addMonth_def addCustomer_def addLocation_def location_of_def bump_stats_def
      toLocaleDateString_def showNat.simps months2025_def zero_stats_def empty_summary_def
      segment_counts_def num_of_nat_def fl_numeral fl_one Let_def)

subsection \<open>Customer segments\<close>

lemma map_of_addCustomer:
  "map_of (addCustomer m ord) c =
     (if customer ord = Some c
      then Some ((case map_of m c of None \<Rightarrow> 0 | Some n \<Rightarrow> n) + 1)
      else map_of m c)"
  by (cases "customer ord") (simp_all add: addCustomer_def Let_def AList.update_conv')

lemma customer_counts:
  "map_of (foldl addCustomer m os) c =
     (case map_of m c of
        None \<Rightarrow> if orderCount c os = 0 then None else Some (orderCount c os)
      | Some n \<Rightarrow> Some (n + orderCount c os))"
proof (induction os arbitrary: m)
  case Nil
  then show ?case by (simp add: orderCount_def split: option.splits)
next
  case (Cons ord os)
  show ?case
  proof (cases "customer ord = Some c")
    case True
    then have c: "orderCount c (ord # os) = Suc (orderCount c os)"
      by (simp add: orderCount_def)
    show ?thesis
      unfolding c
      by (simp add: Cons.IH [of "addCustomer m ord"] map_of_addCustomer True split: option.splits)
  next
    case False
    then have c: "orderCount c (ord # os) = orderCount c os"
      by (simp add: orderCount_def)
    show ?thesis
      unfolding c
      by (simp add: Cons.IH [of "addCustomer m ord"] map_of_addCustomer False)
  qed
qed

lemma distinct_customers_foldl:
  "distinct (map fst m) \<Longrightarrow> distinct (map fst (foldl addCustomer m os))"
proof (induction os arbitrary: m)
  case Nil
  then show ?case by simp
next
  case (Cons ord os)
  have "distinct (map fst (addCustomer m ord))"
    using Cons.prems
    by (cases "customer ord") (simp_all add: addCustomer_def Let_def AList.distinct_update)
  then show ?case using Cons.IH by simp
qed

lemma foldl_classify:
  "foldl classify s ns =
     \<lparr>new = new s + length (filter (\<lambda>n. n = 1) ns),
      returning = returning s + length (filter (\<lambda>n. n \<noteq> 1 \<and> n < 5) ns),
      vip = vip s + length (filter (\<lambda>n. n \<noteq> 1 \<and> 5 \<le> n) ns)\<rparr>"
proof (induction ns arbitrary: s)
  case Nil
  then show ?case by simp
next
  case (Cons n ns)
  have "foldl classify s (n # ns) = foldl classify (classify s n) ns"
    by simp
  also have "\<dots> =
     \<lparr>new = new (classify s n) + length (filter (\<lambda>n. n = 1) ns),
      returning = returning (classify s n) + length (filter (\<lambda>n. n \<noteq> 1 \<and> n < 5) ns),
      vip = vip (classify s n) + length (filter (\<lambda>n. n \<noteq> 1 \<and> 5 \<le> n) ns)\<rparr>"
    by (rule Cons.IH)
  also have "\<dots> =
     \<lparr>new = new s + length (filter (\<lambda>n. n = 1) (n # ns)),
      returning = returning s + length (filter (\<lambda>n. n \<noteq> 1 \<and> n < 5) (n # ns)),
      vip = vip s + length (filter (\<lambda>n. n \<noteq> 1 \<and> 5 \<le> n) (n # ns))\<rparr>"
    by (simp add: classify_def)
  finally show ?case .
qed

lemma count_values:
  "distinct (map fst al) \<Longrightarrow>
     length (filter P (map snd al)) = card {k. \<exists>v. map_of al k = Some v \<and> P v}"
proof (induction al)
  case Nil
  then show ?case by simp
next
  case (Cons p al)
  obtain k v where p: "p = (k, v)" by (cases p)
  let ?S = "{k'. \<exists>v'. map_of al k' = Some v' \<and> P v'}"
  from Cons.prems p have k: "k \<notin> fst ` set al" "distinct (map fst al)"
    by simp_all
  have sub: "?S \<subseteq> fst ` set al"
    by (auto dest: map_of_SomeD intro: rev_image_eqI)
  then have fin: "finite ?S"
    by (rule finite_subset) simp
  from sub k(1) have notin: "k \<notin> ?S" by blast
  have "{k'. \<exists>v'. map_of (p # al) k' = Some v' \<and> P v'} = (if P v then insert k ?S else ?S)"
    using notin by (auto simp: p)
  then show ?case
    using Cons.IH [OF k(2)] fin notin by (simp add: p)
qed

lemma foldl_addCustomer_filter:
  "foldl addCustomer m (filter (\<lambda>ord. customer ord \<noteq> None) os) = foldl addCustomer m os"
  by (induction os arbitrary: m) (auto simp: addCustomer_def)

lemma segment_counts_card:
  "segment_counts (foldl addCustomer [] os) =
     \<lparr>new = card {c. orderCount c os = 1},
      returning = card {c. 2 \<le> orderCount c os \<and> orderCount c os \<le> 4},
      vip = card {c. 5 \<le> orderCount c os}\<rparr>"
proof -
  let ?al = "foldl addCustomer [] os"
  have d: "distinct (map fst ?al)"
    by (rule distinct_customers_foldl) simp
  have look: "map_of ?al c = (if orderCount c os = 0 then None else Some (orderCount c os))" for c
    by (simp add: customer_counts)
  have seg: "segment_counts ?al =
     \<lparr>new = card {k. \<exists>v. map_of ?al k = Some v \<and> v = 1},
      returning = card {k. \<exists>v. map_of ?al k = Some v \<and> (v \<noteq> 1 \<and> v < 5)},
      vip = card {k. \<exists>v. map_of ?al k = Some v \<and> (v \<noteq> 1 \<and> 5 \<le> v)}\<rparr>"
    unfolding segment_counts_def foldl_classify count_values [OF d]
    by simp
  have a: "{k. \<exists>v. map_of ?al k = Some v \<and> v = 1} = {c. orderCount c os = 1}"
    by (auto simp: look)
  have b: "{k. \<exists>v. map_of ?al k = Some v \<and> (v \<noteq> 1 \<and> v < 5)} =
      {c. 2 \<le> orderCount c os \<and> orderCount c os \<le> 4}"
    by (auto simp: look)
  have c: "{k. \<exists>v. map_of ?al k = Some v \<and> (v \<noteq> 1 \<and> 5 \<le> v)} = {c. 5 \<le> orderCount c os}"
    by (auto simp: look)
  show ?thesis
    unfolding seg unfolding a b c by simp
qed

lemma customerSegments_card:
  "processAnalyticsData os = Inr a \<Longrightarrow>
     customerSegments a =
       \<lparr>new = card {c. orderCount c os = 1},
        returning = card {c. 2 \<le> orderCount c os \<and> orderCount c os \<le> 4},
        vip = card {c. 5 \<le> orderCount c os}\<rparr>"
  by (simp only: customerSegments_eq segment_counts_card)

text \<open>
  Claim C7: the three segment counters of the summary are the numbers of customer ids with
  exactly one order, with two to four orders, and with five or more orders in the sequence;
  the orders without customer change none of them.
\<close>

theorem segments_by_order_count:
  "processAnalyticsData os = Inr a \<Longrightarrow>
     new (customerSegments a) = card {c. orderCount c os = 1} \<and>
     returning (customerSegments a) = card {c. 2 \<le> orderCount c os \<and> orderCount c os \<le> 4} \<and>
     vip (customerSegments a) = card {c. 5 \<le> orderCount c os} \<and>
     (\<exists>a'. processAnalyticsData (filter (\<lambda>ord. customer ord \<noteq> None) os) = Inr a' \<and>
        customerSegments a' = customerSegments a)"
proof -
  assume a: "processAnalyticsData os = Inr a"
  from produced_filter [OF a] obtain a'
    where a': "processAnalyticsData (filter (\<lambda>ord. customer ord \<noteq> None) os) = Inr a'"
    by blast
  have "customerSegments a' = customerSegments a"
    by (simp only: customerSegments_eq [OF a] customerSegments_eq [OF a'] foldl_addCustomer_filter)
  with a' show ?thesis
    by (auto simp: customerSegments_card [OF a])
qed

theorem segments_by_order_count_witness:
  "processAnalyticsData [orderA, orderB, orderC] =
     Inr (projr (processAnalyticsData [orderA, orderB, orderC])) \<and>
   orderCount ''c1'' [orderA, orderB, orderC] = 2 \<and> orderCount ''c2'' [orderA, orderB, orderC] = 1 \<and>
   new (customerSegments (projr (processAnalyticsData [orderA, orderB, orderC]))) = 1 \<and>
   returning (customerSegments (projr (processAnalyticsData [orderA, orderB, orderC]))) = 1 \<and>
   vip (customerSegments (projr (processAnalyticsData [orderA, orderB, orderC]))) = 0"
proof -
  let ?os = "[orderA, orderB, orderC]"
  have p: "processAnalyticsData ?os = Inr (projr (processAnalyticsData ?os))"
    by (rule produced_examples) simp
  have c: "orderCount c ?os = (if c = ''c1'' then 2 else if c = ''c2'' then 1 else 0)" for c
    by (auto simp: orderCount_def orderA_def orderB_def orderC_def)
  have "{c. orderCount c ?os = 1} = {''c2''}"
    "{c. 2 \<le> orderCount c ?os \<and> orderCount c ?os \<le> 4} = {''c1''}"
    "{c. 5 \<le> orderCount c ?os} = {}"
    by (auto simp: c)
  with segments_by_order_count [OF p] p c show ?thesis
    by simp
qed

subsection \<open>Permutations of the input\<close>

lemma length_filter_mset:
  "mset xs = mset ys \<Longrightarrow> length (filter P xs) = length (filter P ys)"
  by (metis mset_filter size_mset)

lemma produced_mset:
  assumes "mset os = mset os'" "processAnalyticsData os = Inr a"
  shows "\<exists>a'. processAnalyticsData os' = Inr a'"
proof -
  from assms(1) have "set os = set os'"
    by (rule mset_eq_setD)
  then have "set (allItems os') = set (allItems os)"
    by (simp add: allItems_def)
  with assms(2) show ?thesis
    using produced_iff [of os] produced_iff [of os'] by blast
qed

lemma decimal_sums:
  "foldl js_add (Fin 0)
     [Fin (3602879701896397 / 36028797018963968), Fin (3602879701896397 / 18014398509481984),
      Fin (5404319552844595 / 18014398509481984)] =
     Fin (1351079888211149 / 2251799813685248)"
  "foldl js_add (Fin 0)
     [Fin (5404319552844595 / 18014398509481984), Fin (3602879701896397 / 18014398509481984),
      Fin (3602879701896397 / 36028797018963968)] =
     Fin (5404319552844595 / 9007199254740992)"
  by code_simp+

lemma decimal_parse:
  "fl (1 / 10) = Fin (3602879701896397 / 36028797018963968)"
  "fl (1 / 5) = Fin (3602879701896397 / 18014398509481984)"
  "fl (3 / 10) = Fin (5404319552844595 / 18014398509481984)"
  by code_simp+

text \<open>
  Claim C8, as the function has it. When a sequence of orders has a summary, the same orders
  in another arrangement have one too; the two have the same order count, fulfilled count,
  paid count and segment counts, the same twelve leading month labels, and for every month
  label the same number of orders. The revenue sums are sums of doubles taken in input
  order, and are left out.
\<close>

theorem counts_permutation_invariant:
  "mset os = mset os' \<Longrightarrow> processAnalyticsData os = Inr a \<Longrightarrow>
     (\<exists>a'. processAnalyticsData os' = Inr a' \<and>
        totalOrders a = totalOrders a' \<and>
        fulfilledOrders a = fulfilledOrders a' \<and>
        paidOrders a = paidOrders a' \<and>
        customerSegments a = customerSegments a' \<and>
        map fst (take 12 (monthlyData a)) = map fst (take 12 (monthlyData a')) \<and>
        (\<forall>m. map_option orders (map_of (monthlyData a) m) =
             map_option orders (map_of (monthlyData a') m)))"
proof -
  assume p: "mset os = mset os'" and a: "processAnalyticsData os = Inr a"
  from produced_mset [OF p a] obtain a' where a': "processAnalyticsData os' = Inr a'"
    by blast
  have len: "length os = length os'"
    using p by (rule mset_eq_length)
  have oc: "orderCount c os = orderCount c os'" for c
    unfolding orderCount_def using p by (rule length_filter_mset)
  have mc: "monthCount m os = monthCount m os'" for m
    unfolding monthCount_def using p by (rule length_filter_mset)
  have "totalOrders a = totalOrders a'"
    by (simp add: totalOrders_eq [OF a] totalOrders_eq [OF a'] len)
  moreover have "fulfilledOrders a = fulfilledOrders a'"
    unfolding fulfilledOrders_eq [OF a] fulfilledOrders_eq [OF a'] using p by (rule length_filter_mset)
  moreover have "paidOrders a = paidOrders a'"
    unfolding paidOrders_eq [OF a] paidOrders_eq [OF a'] using p by (rule length_filter_mset)
  moreover have "customerSegments a = customerSegments a'"
    by (simp add: customerSegments_card [OF a] customerSegments_card [OF a'] oc)
  moreover have "map fst (take 12 (monthlyData a)) = map fst (take 12 (monthlyData a'))"
    by (simp add: monthlyData_eq [OF a] monthlyData_eq [OF a'] first12_foldl first12_init)
  moreover have "map_option orders (map_of (monthlyData a) m) =
          map_option orders (map_of (monthlyData a') m)" for m
    unfolding monthlyData_eq [OF a] monthlyData_eq [OF a'] month_orders mc by (rule refl)
  ultimately show ?thesis
    using a' by blast
qed

theorem counts_permutation_invariant_witness:
  "mset [orderA, orderB, orderC] = mset [orderC, orderA, orderB] \<and>
   processAnalyticsData [orderA, orderB, orderC] =
     Inr (projr (processAnalyticsData [orderA, orderB, orderC])) \<and>
   processAnalyticsData [orderC, orderA, orderB] =
     Inr (projr (processAnalyticsData [orderC, orderA, orderB])) \<and>
   totalOrders (projr (processAnalyticsData [orderC, orderA, orderB])) = 3 \<and>
   fulfilledOrders (projr (processAnalyticsData [orderC, orderA, orderB])) = 2 \<and>
   paidOrders (projr (processAnalyticsData [orderC, orderA, orderB])) = 2"
proof -
  have p: "mset [orderA, orderB, orderC] = mset [orderC, orderA, orderB]"
    by simp
  have a: "processAnalyticsData [orderA, orderB, orderC] =
     Inr (projr (processAnalyticsData [orderA, orderB, orderC]))"
    by (rule produced_examples) simp
  have e1: "totalOrders (projr (processAnalyticsData [orderA, orderB, orderC])) = 3"
    unfolding totalOrders_eq [OF a] by simp
  have e2: "fulfilledOrders (projr (processAnalyticsData [orderA, orderB, orderC])) = 2"
    unfolding fulfilledOrders_eq [OF a] by (simp add: orderA_def orderB_def orderC_def)
  have e3: "paidOrders (projr (processAnalyticsData [orderA, orderB, orderC])) = 2"
    unfolding paidOrders_eq [OF a] by (simp add: orderA_def orderB_def orderC_def)
  note e = e1 e2 e3
  from counts_permutation_invariant [OF p a] e p a show ?thesis
    by auto
qed

text \<open>
  Claim C8 as stated fails: orders of 0.10, 0.20 and 0.30 total 0.6000000000000001 in this
  order and 0.6 in the reverse order.
\<close>

theorem revenue_permutation_counterexample:
  "mset [dime, two_dimes, three_dimes] = mset [three_dimes, two_dimes, dime] \<and>
   amount dime = fl (1 / 10) \<and> amount two_dimes = fl (1 / 5) \<and> amount three_dimes = fl (3 / 10) \<and>
   map_sum id totalRevenue (processAnalyticsData [dime, two_dimes, three_dimes]) =
     Inr (Fin (1351079888211149 / 2251799813685248)) \<and>
   map_sum id totalRevenue (processAnalyticsData [three_dimes, two_dimes, dime]) =
     Inr (Fin (5404319552844595 / 9007199254740992)) \<and>
   map_sum id totalRevenue (processAnalyticsData [dime, two_dimes, three_dimes]) \<noteq>
     map_sum id totalRevenue (processAnalyticsData [three_dimes, two_dimes, dime])"
proof -
  have "mset [dime, two_dimes, three_dimes] = mset [three_dimes, two_dimes, dime]"
    by simp
  moreover have "amount dime = fl (1 / 10)" "amount two_dimes = fl (1 / 5)"
    "amount three_dimes = fl (3 / 10)"
    by (simp_all add: decimal_parse dime_def two_dimes_def three_dimes_def small_order_def)
  moreover have m: "map amount [dime, two_dimes, three_dimes] =
     [Fin (3602879701896397 / 36028797018963968), Fin (3602879701896397 / 18014398509481984),
      Fin (5404319552844595 / 18014398509481984)]"
    "map amount [three_dimes, two_dimes, dime] =
     [Fin (5404319552844595 / 18014398509481984), Fin (3602879701896397 / 18014398509481984),
      Fin (3602879701896397 / 36028797018963968)]"
    by (simp_all add: dime_def two_dimes_def three_dimes_def small_order_def)
  have none: "allItems [dime, two_dimes, three_dimes] = []" "allItems [three_dimes, two_dimes, dime] = []"
    by (simp_all add: allItems_def dime_def two_dimes_def three_dimes_def small_order_def)
  obtain a1 where a1: "processAnalyticsData [dime, two_dimes, three_dimes] = Inr a1"
    using produced_iff [of "[dime, two_dimes, three_dimes]"] none by auto
  obtain a2 where a2: "processAnalyticsData [three_dimes, two_dimes, dime] = Inr a2"
    using produced_iff [of "[three_dimes, two_dimes, dime]"] none by auto
  have "totalRevenue a1 = Fin (1351079888211149 / 2251799813685248)"
    "totalRevenue a2 = Fin (5404319552844595 / 9007199254740992)"
    by (simp_all only: totalRevenue_eq [OF a1] totalRevenue_eq [OF a2] m decimal_sums)
  then have "map_sum id totalRevenue (processAnalyticsData [dime, two_dimes, three_dimes]) =
     Inr (Fin (1351079888211149 / 2251799813685248))"
    "map_sum id totalRevenue (processAnalyticsData [three_dimes, two_dimes, dime]) =
     Inr (Fin (5404319552844595 / 9007199254740992))"
    by (simp_all add: a1 a2)
  ultimately show ?thesis by simp
qed

subsection \<open>The product and location lists\<close>

lemma firstSeen_snoc:
  "firstSeen (xs @ [x]) = (if x \<in> set xs then firstSeen xs else firstSeen xs @ [x])"
  by (simp add: firstSeen_def)

lemma firstSeen_Nil [simp]: "firstSeen [] = []"
  by (simp add: firstSeen_def)

lemma set_firstSeen [simp]: "set (firstSeen xs) = set xs"
  by (simp add: firstSeen_def)

lemma distinct_firstSeen [simp]: "distinct (firstSeen xs)"
  by (simp add: firstSeen_def)


lemma addItem_Inr:
  assumes "addItem m item = Inr m'"
  shows "(case product item of
            None \<Rightarrow> m' = m
          | Some key \<Rightarrow> \<exists>price. variant item = Some price \<and>
              m' = AList.update key
                     \<lparr>name = name (case map_of m key of
                              None \<Rightarrow> \<lparr>name = key, pquantity = 0, prevenue = Fin 0, porders = 0\<rparr>
                            | Some s \<Rightarrow> s),
                      pquantity = pquantity (case map_of m key of
                              None \<Rightarrow> \<lparr>name = key, pquantity = 0, prevenue = Fin 0, porders = 0\<rparr>
                            | Some s \<Rightarrow> s) + quantity item,
                      prevenue = js_add (prevenue (case map_of m key of
                              None \<Rightarrow> \<lparr>name = key, pquantity = 0, prevenue = Fin 0, porders = 0\<rparr>
                            | Some s \<Rightarrow> s)) (js_mul (num_of_int (quantity item)) price),
                      porders = porders (case map_of m key of
                              None \<Rightarrow> \<lparr>name = key, pquantity = 0, prevenue = Fin 0, porders = 0\<rparr>
                            | Some s \<Rightarrow> s) + 1\<rparr> m)"
  using assms by (auto simp: addItem_def Let_def split: option.splits)

lemma addItems_snoc:
  assumes "addItems m (items @ [item]) = Inr m'"
  obtains m0 where "addItems m items = Inr m0" "addItem m0 item = Inr m'"
  using assms by (auto simp: addItems_append split: sum.splits)

lemma keys_addItem:
  assumes "addItem m item = Inr m'"
  shows "map fst m' =
     (case product item of
        None \<Rightarrow> map fst m
      | Some k \<Rightarrow> if k \<in> set (map fst m) then map fst m else map fst m @ [k])"
  using addItem_Inr [OF assms] by (force simp: AList.update_keys split: option.splits)

lemma product_keys:
  "addItems [] items = Inr al \<Longrightarrow>
     map fst al = firstSeen (map (the \<circ> product) (filter has_product items))"
proof (induction items arbitrary: al rule: rev_induct)
  case Nil
  then show ?case by simp
next
  case (snoc item items)
  from snoc.prems obtain al0 where al0: "addItems [] items = Inr al0" "addItem al0 item = Inr al"
    by (rule addItems_snoc)
  note ih = snoc.IH [OF al0(1)]
  show ?case
  proof (cases "product item")
    case None
    then show ?thesis
      using ih keys_addItem [OF al0(2)] by (simp add: has_product_def)
  next
    case (Some k)
    then show ?thesis
      using ih keys_addItem [OF al0(2)] by (simp add: has_product_def firstSeen_snoc)
  qed
qed

lemma product_values:
  "addItems [] items = Inr al \<Longrightarrow>
   (case map_of al t of
      None \<Rightarrow> filter (\<lambda>item. product item = Some t) items = []
    | Some s \<Rightarrow> name s = t \<and>
        pquantity s = sum_list (map quantity (filter (\<lambda>item. product item = Some t) items)) \<and>
        porders s = length (filter (\<lambda>item. product item = Some t) items) \<and>
        prevenue s =
          foldl js_add (Fin 0) (map itemRevenue (filter (\<lambda>item. product item = Some t) items)))"
proof (induction items arbitrary: al rule: rev_induct)
  case Nil
  then show ?case by simp
next
  case (snoc item items)
  from snoc.prems obtain al0 where al0: "addItems [] items = Inr al0" "addItem al0 item = Inr al"
    by (rule addItems_snoc)
  note ih = snoc.IH [OF al0(1)]
  show ?case
  proof (cases "product item = Some t")
    case True
    with addItem_Inr [OF al0(2)] obtain price where price: "variant item = Some price"
      and al: "al = AList.update t
                     \<lparr>name = name (case map_of al0 t of
                              None \<Rightarrow> \<lparr>name = t, pquantity = 0, prevenue = Fin 0, porders = 0\<rparr>
                            | Some s \<Rightarrow> s),
                      pquantity = pquantity (case map_of al0 t of
                              None \<Rightarrow> \<lparr>name = t, pquantity = 0, prevenue = Fin 0, porders = 0\<rparr>
                            | Some s \<Rightarrow> s) + quantity item,
                      prevenue = js_add (prevenue (case map_of al0 t of
                              None \<Rightarrow> \<lparr>name = t, pquantity = 0, prevenue = Fin 0, porders = 0\<rparr>
                            | Some s \<Rightarrow> s)) (js_mul (num_of_int (quantity item)) price),
                      porders = porders (case map_of al0 t of
                              None \<Rightarrow> \<lparr>name = t, pquantity = 0, prevenue = Fin 0, porders = 0\<rparr>
                            | Some s \<Rightarrow> s) + 1\<rparr> al0"
      by auto
    have r: "itemRevenue item = js_mul (num_of_int (quantity item)) price"
      by (simp add: itemRevenue_def price)
    show ?thesis
      using ih True by (cases "map_of al0 t") (simp_all add: al AList.update_conv' r)
  next
    case False
    with addItem_Inr [OF al0(2)] have "map_of al t = map_of al0 t"
      by (cases "product item") (auto simp: AList.update_conv')
    with ih False show ?thesis
      by (simp split: option.splits)
  qed
qed

lemma product_entry:
  assumes "addItems [] items = Inr al" "(t, s) \<in> set al"
  shows "name s = t"
    and "pquantity s = sum_list (map quantity (filter (\<lambda>item. product item = Some t) items))"
    and "porders s = length (filter (\<lambda>item. product item = Some t) items)"
    and "prevenue s =
          foldl js_add (Fin 0) (map itemRevenue (filter (\<lambda>item. product item = Some t) items))"
proof -
  have "distinct (map fst al)"
    by (simp add: product_keys [OF assms(1)])
  with assms(2) have "map_of al t = Some s"
    by simp
  with product_values [OF assms(1), where t = t] show "name s = t"
    and "pquantity s = sum_list (map quantity (filter (\<lambda>item. product item = Some t) items))"
    and "porders s = length (filter (\<lambda>item. product item = Some t) items)"
    and "prevenue s =
          foldl js_add (Fin 0) (map itemRevenue (filter (\<lambda>item. product item = Some t) items))"
    by simp_all
qed

lemma product_list:
  assumes al: "addItems [] (allItems os) = Inr al"
  shows "map name (map snd al) = firstSeen (productTitles os)"
    and "\<forall>s\<in>set (map snd al). pquantity s = totalQuantity (name s) os \<and>
           porders s = length (titled (name s) os) \<and>
           prevenue s = foldl js_add (Fin 0) (map itemRevenue (titled (name s) os))"
proof -
  have e: "name (snd p) = fst p \<and> pquantity (snd p) = totalQuantity (fst p) os \<and>
           porders (snd p) = length (titled (fst p) os) \<and>
           prevenue (snd p) = foldl js_add (Fin 0) (map itemRevenue (titled (fst p) os))"
    if "p \<in> set al" for p
    using product_entry [OF al, of "fst p" "snd p"] that
    by (simp add: totalQuantity_def titled_def)
  then have "map name (map snd al) = map fst al"
    by simp
  then show "map name (map snd al) = firstSeen (productTitles os)"
    by (simp add: product_keys [OF al] productTitles_def)
  show "\<forall>s\<in>set (map snd al). pquantity s = totalQuantity (name s) os \<and>
           porders s = length (titled (name s) os) \<and>
           prevenue s = foldl js_add (Fin 0) (map itemRevenue (titled (name s) os))"
    using e by auto
qed

lemma addLocation_cases:
  "addLocation m ord = (case shipTo ord of None \<Rightarrow> m | Some l \<Rightarrow> bump_stats (amount ord) m l)"
  by (simp add: addLocation_def shipTo_def split: option.splits)

lemma keys_bump:
  "map fst (bump_stats a m k) = (if k \<in> set (map fst m) then map fst m else map fst m @ [k])"
  by (simp add: bump_stats_def Let_def AList.update_keys)

lemma location_keys: "map fst (foldl addLocation [] os) = firstSeen (shipLocations os)"
proof (induction os rule: rev_induct)
  case Nil
  then show ?case by (simp add: shipLocations_def)
next
  case (snoc ord os)
  show ?case
  proof (cases "shipTo ord")
    case None
    then have "addLocation (foldl addLocation [] os) ord = foldl addLocation [] os"
      by (simp add: addLocation_cases)
    with None snoc show ?thesis
      by (simp add: shipLocations_def)
  next
    case (Some l)
    then have "addLocation (foldl addLocation [] os) ord =
        bump_stats (amount ord) (foldl addLocation [] os) l"
      by (simp add: addLocation_cases)
    with Some snoc show ?thesis
      by (simp add: shipLocations_def keys_bump firstSeen_snoc)
  qed
qed

lemma location_orders:
  "map_option orders (map_of (foldl addLocation [] os) l) =
     (if locationCount l os = 0 then None else Some (locationCount l os))"
proof (induction os rule: rev_induct)
  case Nil
  then show ?case by (simp add: locationCount_def)
next
  case (snoc ord os)
  let ?m = "foldl addLocation [] os"
  show ?case
  proof (cases "shipTo ord = Some l")
    case True
    then have "addLocation ?m ord = bump_stats (amount ord) ?m l"
      by (simp add: addLocation_cases)
    moreover have "locationCount l (os @ [ord]) = Suc (locationCount l os)"
      using True by (simp add: locationCount_def)
    ultimately show ?thesis
      using snoc by (cases "map_of ?m l") (simp_all add: map_of_bump zero_stats_def split: if_splits)
  next
    case False
    then have "map_of (addLocation ?m ord) l = map_of ?m l"
      by (cases "shipTo ord") (simp_all add: addLocation_cases map_of_bump)
    moreover have "locationCount l (os @ [ord]) = locationCount l os"
      using False by (simp add: locationCount_def)
    ultimately show ?thesis
      using snoc by simp
  qed
qed

lemma location_entry:
  assumes "p \<in> set (foldl addLocation [] os)"
  shows "orders (snd p) = locationCount (fst p) os"
proof -
  have "distinct (map fst (foldl addLocation [] os))"
    by (simp add: location_keys)
  with assms have "map_of (foldl addLocation [] os) (fst p) = Some (snd p)"
    by simp
  with location_orders [of os "fst p"] show ?thesis
    by (simp split: if_splits)
qed


lemma filter_take_prefix: "prefix (filter P (take n xs)) (filter P xs)"
proof -
  have "filter P xs = filter P (take n xs) @ filter P (drop n xs)"
    by (metis append_take_drop_id filter_append)
  then show ?thesis by (simp add: prefix_def)
qed


lemma insort_key_map:
  assumes "f x = g (h x)" "\<forall>y\<in>set ys. f y = g (h y)"
  shows "map h (insort_key f x ys) = insort_key g (h x) (map h ys)"
  using assms by (induction ys) simp_all

lemma sort_key_map:
  "\<forall>x\<in>set xs. f x = g (h x) \<Longrightarrow> map h (sort_key f xs) = sort_key g (map h xs)"
proof (induction xs)
  case Nil
  then show ?case by simp
next
  case (Cons x xs)
  then have "map h (insort_key f x (sort_key f xs)) = insort_key g (h x) (map h (sort_key f xs))"
    by (intro insort_key_map) simp_all
  with Cons show ?case
    by (simp add: sort_key_simps)
qed

lemma top_ten:
  fixes key :: "'a \<Rightarrow> int" and label :: "'a \<Rightarrow> 'l" and total :: "'l \<Rightarrow> int"
  assumes tot: "\<forall>x\<in>set xs. key x = total (label x)"
  defines "best \<equiv> take 10 (sort_key (\<lambda>x. - key x) xs)"
  shows "map label best = take 10 (sort_key (\<lambda>l. - total l) (map label xs))"
    and "length best = min 10 (length xs)"
    and "sorted_wrt (\<lambda>a b. key b \<le> key a) best"
    and "set best \<subseteq> set xs"
    and "prefix (map label (filter (\<lambda>x. key x = q) best)) (filter (\<lambda>l. total l = q) (map label xs))"
proof -
  let ?full = "sort_key (\<lambda>x. - key x) xs"
  have "map label best = take 10 (map label ?full)"
    by (simp add: best_def take_map)
  also have "map label ?full = sort_key (\<lambda>l. - total l) (map label xs)"
    using tot by (intro sort_key_map) simp
  finally show "map label best = take 10 (sort_key (\<lambda>l. - total l) (map label xs))" .
  show "length best = min 10 (length xs)"
    by (simp add: best_def min.commute)
  have "sorted (map (\<lambda>x. - key x) ?full)"
    by (rule sorted_sort_key)
  then have "sorted_wrt (\<lambda>a b. key b \<le> key a) ?full"
    by (simp add: sorted_map)
  then show "sorted_wrt (\<lambda>a b. key b \<le> key a) best"
    unfolding best_def by (rule sorted_wrt_take)
  show "set best \<subseteq> set xs"
    using set_take_subset [of 10 ?full] by (simp add: best_def)
  have "filter (\<lambda>x. key x = q) ?full = filter (\<lambda>x. - key x = - q) ?full"
    by simp
  also have "\<dots> = filter (\<lambda>x. - key x = - q) xs"
    by (rule sort_key_stable)
  also have "\<dots> = filter (\<lambda>x. total (label x) = q) xs"
    using tot by (intro filter_cong) auto
  finally have "map label (filter (\<lambda>x. key x = q) ?full) = filter (\<lambda>l. total l = q) (map label xs)"
    by (simp add: filter_map comp_def)
  moreover have "prefix (map label (filter (\<lambda>x. key x = q) best))
      (map label (filter (\<lambda>x. key x = q) ?full))"
    unfolding best_def by (intro map_mono_prefix filter_take_prefix)
  ultimately show "prefix (map label (filter (\<lambda>x. key x = q) best))
      (filter (\<lambda>l. total l = q) (map label xs))"
    by simp
qed

lemma product_summary:
  assumes a: "processAnalyticsData os = Inr a"
  shows "map name (productData a) =
           take 10 (sort_key (\<lambda>t. - totalQuantity t os) (firstSeen (productTitles os)))"
    and "length (productData a) = min 10 (length (firstSeen (productTitles os)))"
    and "sorted_wrt (\<lambda>a b. pquantity b \<le> pquantity a) (productData a)"
    and "\<forall>s\<in>set (productData a). pquantity s = totalQuantity (name s) os \<and>
           porders s = length (titled (name s) os) \<and>
           prevenue s = foldl js_add (Fin 0) (map itemRevenue (titled (name s) os))"
    and "prefix (map name (filter (\<lambda>s. pquantity s = q) (productData a)))
           (filter (\<lambda>t. totalQuantity t os = q) (firstSeen (productTitles os)))"
proof -
  from a obtain al where al: "addItems [] (allItems os) = Inr al"
    and pd: "productData a = take 10 (sort_key (\<lambda>s. - pquantity s) (map snd al))"
    by (rule productData_eq)
  let ?ps = "map snd al"
  have pn: "map name ?ps = firstSeen (productTitles os)"
    by (rule product_list(1) [OF al])
  note pv = product_list(2) [OF al]
  have pt: "\<forall>s\<in>set ?ps. pquantity s = totalQuantity (name s) os"
    using pv by blast
  note P = top_ten [where key = pquantity and label = name
      and total = "\<lambda>t. totalQuantity t os" and xs = ?ps, OF pt, unfolded pn, folded pd]
  show "map name (productData a) =
           take 10 (sort_key (\<lambda>t. - totalQuantity t os) (firstSeen (productTitles os)))"
    by (rule P(1))
  show "length (productData a) = min 10 (length (firstSeen (productTitles os)))"
    using P(2) pn by (metis length_map)
  show "sorted_wrt (\<lambda>a b. pquantity b \<le> pquantity a) (productData a)"
    by (rule P(3))
  show "\<forall>s\<in>set (productData a). pquantity s = totalQuantity (name s) os \<and>
           porders s = length (titled (name s) os) \<and>
           prevenue s = foldl js_add (Fin 0) (map itemRevenue (titled (name s) os))"
    using P(4) pv by blast
  show "prefix (map name (filter (\<lambda>s. pquantity s = q) (productData a)))
           (filter (\<lambda>t. totalQuantity t os = q) (firstSeen (productTitles os)))"
    by (rule P(5))
qed

lemma location_summary:
  assumes a: "processAnalyticsData os = Inr a"
  shows "map fst (locationData a) =
           take 10 (sort_key (\<lambda>l. - int (locationCount l os)) (firstSeen (shipLocations os)))"
    and "length (locationData a) = min 10 (length (firstSeen (shipLocations os)))"
    and "sorted_wrt (\<lambda>a b. orders (snd b) \<le> orders (snd a)) (locationData a)"
    and "\<forall>e\<in>set (locationData a). orders (snd e) = locationCount (fst e) os"
    and "prefix (map fst (filter (\<lambda>e. orders (snd e) = n) (locationData a)))
           (filter (\<lambda>l. locationCount l os = n) (firstSeen (shipLocations os)))"
proof -
  let ?ls = "foldl addLocation [] os"
  note ld = locationData_eq [OF a]
  have ln: "map fst ?ls = firstSeen (shipLocations os)"
    by (rule location_keys)
  have lt: "\<forall>e\<in>set ?ls. int (orders (snd e)) = int (locationCount (fst e) os)"
    by (simp add: location_entry)
  note L = top_ten [where key = "\<lambda>e. int (orders (snd e))" and label = fst
      and total = "\<lambda>l. int (locationCount l os)" and xs = ?ls, OF lt, unfolded ln, folded ld]
  show "map fst (locationData a) =
           take 10 (sort_key (\<lambda>l. - int (locationCount l os)) (firstSeen (shipLocations os)))"
    by (rule L(1))
  show "length (locationData a) = min 10 (length (firstSeen (shipLocations os)))"
    using L(2) ln by (metis length_map)
  show "sorted_wrt (\<lambda>a b. orders (snd b) \<le> orders (snd a)) (locationData a)"
    using L(3) by simp
  show "\<forall>e\<in>set (locationData a). orders (snd e) = locationCount (fst e) os"
    using L(4) lt by auto
  show "prefix (map fst (filter (\<lambda>e. orders (snd e) = n) (locationData a)))
           (filter (\<lambda>l. locationCount l os = n) (firstSeen (shipLocations os)))"
    using L(5) [of "int n"] by simp
qed

text \<open>
  Claim C9: the product list of a summary is the first ten of the product titles of the
  input, taken in the order in which the input first shows them and sorted stably by
  descending cumulative quantity. So it has at most ten entries, one per title up to ten, in
  descending order of quantity, each with the cumulative quantity of its title, and among
  the entries of one quantity the titles keep the order of first appearance. The same holds
  of the location list, with the number of orders shipped to a city as the key.
\<close>

theorem top_ten_lists:
  "processAnalyticsData os = Inr a \<Longrightarrow>
   map name (productData a) =
     take 10 (sort_key (\<lambda>t. - totalQuantity t os) (firstSeen (productTitles os))) \<and>
   length (productData a) = min 10 (length (firstSeen (productTitles os))) \<and>
   sorted_wrt (\<lambda>a b. pquantity b \<le> pquantity a) (productData a) \<and>
   (\<forall>s\<in>set (productData a). pquantity s = totalQuantity (name s) os) \<and>
   (\<forall>q. prefix (map name (filter (\<lambda>s. pquantity s = q) (productData a)))
          (filter (\<lambda>t. totalQuantity t os = q) (firstSeen (productTitles os)))) \<and>
   map fst (locationData a) =
     take 10 (sort_key (\<lambda>l. - int (locationCount l os)) (firstSeen (shipLocations os))) \<and>
   length (locationData a) = min 10 (length (firstSeen (shipLocations os))) \<and>
   sorted_wrt (\<lambda>a b. orders (snd b) \<le> orders (snd a)) (locationData a) \<and>
   (\<forall>e\<in>set (locationData a). orders (snd e) = locationCount (fst e) os) \<and>
   (\<forall>n. prefix (map fst (filter (\<lambda>e. orders (snd e) = n) (locationData a)))
          (filter (\<lambda>l. locationCount l os = n) (firstSeen (shipLocations os))))"
proof -
  assume a: "processAnalyticsData os = Inr a"
  note P = product_summary [OF a]
  note L = location_summary [OF a]
  have "\<forall>s\<in>set (productData a). pquantity s = totalQuantity (name s) os"
    using P(4) by blast
  then show ?thesis
    using P(1,2,3,5) L by blast
qed

lemma eleven_titles:
  "firstSeen (productTitles (orderE # eleven_cities)) =
     [''P01'', ''P02'', ''P03'', ''P04'', ''P05'', ''P06'', ''P07'', ''P08'', ''P09'', ''P10'',
      ''Best'']"
  by (simp add: firstSeen_def productTitles_def allItems_def has_product_def orderE_def
      eleven_cities_def order_to_def item_of_def)

lemma eleven_quantities:
  "map (\<lambda>t. totalQuantity t (orderE # eleven_cities))
     [''P01'', ''P02'', ''P03'', ''P04'', ''P05'', ''P06'', ''P07'', ''P08'', ''P09'', ''P10'',
      ''Best''] = [1, 2, 3, 4, 5, 5, 7, 8, 9, 10, 100]"
  by (simp add: totalQuantity_def titled_def allItems_def orderE_def eleven_cities_def
      order_to_def item_of_def)

lemma eleven_locations:
  "firstSeen (shipLocations (orderE # eleven_cities)) =
     [''C01'', ''C02'', ''C03'', ''C04'', ''C05'', ''C06'', ''C07'', ''C08'', ''C09'', ''C10'',
      ''C11'']"
  by (simp add: firstSeen_def shipLocations_def shipTo_def location_of_def orderE_def
      eleven_cities_def order_to_def)

lemma eleven_counts:
  "map (\<lambda>l. locationCount l (orderE # eleven_cities))
     [''C01'', ''C02'', ''C03'', ''C04'', ''C05'', ''C06'', ''C07'', ''C08'', ''C09'', ''C10'',
      ''C11''] = [1, 1, 1, 1, 1, 1, 1, 1, 1, 1, 2]"
  by (simp add: locationCount_def shipTo_def location_of_def orderE_def eleven_cities_def
      order_to_def)

lemma eleven_produced:
  "processAnalyticsData (orderE # eleven_cities) =
     Inr (projr (processAnalyticsData (orderE # eleven_cities)))"
proof -
  have "\<forall>item\<in>set (allItems (orderE # eleven_cities)). \<not> missing_variant item"
    by (simp add: allItems_def missing_variant_def orderE_def eleven_cities_def order_to_def
        item_of_def)
  then obtain a where "processAnalyticsData (orderE # eleven_cities) = Inr a"
    using produced_iff [of "orderE # eleven_cities"] by blast
  then show ?thesis by simp
qed

theorem top_ten_lists_witness:
  "processAnalyticsData (orderE # eleven_cities) =
     Inr (projr (processAnalyticsData (orderE # eleven_cities))) \<and>
   firstSeen (productTitles (orderE # eleven_cities)) =
     [''P01'', ''P02'', ''P03'', ''P04'', ''P05'', ''P06'', ''P07'', ''P08'', ''P09'', ''P10'',
      ''Best''] \<and>
   map name (productData (projr (processAnalyticsData (orderE # eleven_cities)))) =
     [''Best'', ''P10'', ''P09'', ''P08'', ''P07'', ''P05'', ''P06'', ''P04'', ''P03'', ''P02''] \<and>
   firstSeen (shipLocations (orderE # eleven_cities)) =
     [''C01'', ''C02'', ''C03'', ''C04'', ''C05'', ''C06'', ''C07'', ''C08'', ''C09'', ''C10'',
      ''C11''] \<and>
   map fst (locationData (projr (processAnalyticsData (orderE # eleven_cities)))) =
     [''C11'', ''C01'', ''C02'', ''C03'', ''C04'', ''C05'', ''C06'', ''C07'', ''C08'', ''C09'']"
proof -
  let ?os = "orderE # eleven_cities"
  note q = eleven_quantities [simplified]
  note c = eleven_counts [simplified]
  have "take 10 (sort_key (\<lambda>t. - totalQuantity t ?os) (firstSeen (productTitles ?os))) =
     [''Best'', ''P10'', ''P09'', ''P08'', ''P07'', ''P05'', ''P06'', ''P04'', ''P03'', ''P02'']"
    unfolding eleven_titles by (simp add: q)
  moreover have "take 10 (sort_key (\<lambda>l. - int (locationCount l ?os)) (firstSeen (shipLocations ?os))) =
     [''C11'', ''C01'', ''C02'', ''C03'', ''C04'', ''C05'', ''C06'', ''C07'', ''C08'', ''C09'']"
    unfolding eleven_locations by (simp add: c)
  ultimately show ?thesis
    using top_ten_lists [OF eleven_produced] eleven_produced eleven_titles eleven_locations
    by simp
qed

subsection \<open>Line items without a product\<close>

lemma addItems_productless:
  "addItems m (filter has_product items) = addItems m items"
proof (induction items arbitrary: m)
  case Nil
  then show ?case by simp
next
  case (Cons item items)
  show ?case
  proof (cases "product item")
    case None
    then have "addItem m item = Inr m"
      by (simp add: addItem_def)
    with None Cons show ?thesis
      by (simp add: has_product_def)
  next
    case (Some k)
    with Cons show ?thesis
      by (simp add: has_product_def split: sum.splits)
  qed
qed

lemma processOrder_productless:
  "processOrder st (drop_productless ord) = processOrder st ord"
  by (simp add: processOrder_def drop_productless_def addItems_productless addMonth_def
      addCustomer_def addLocation_def split: sum.splits option.splits)

lemma processOrders_productless:
  "processOrders st (map drop_productless os) = processOrders st os"
  by (induction os arbitrary: st) (simp_all add: processOrder_productless split: sum.splits)

lemma map_of_init_other:
  "k \<notin> set months2025 \<Longrightarrow> map_of (monthlyStats init_acc) k = None"
  by (simp add: init_acc_def map_of_eq_None_iff image_iff)

lemma bump_fold:
  assumes step: "\<And>m ord. f m ord = (case \<kappa> ord of None \<Rightarrow> m | Some k \<Rightarrow> bump_stats (amount ord) m k)"
  shows "map_of (foldl f m os) k =
     (case map_of m k of
        None \<Rightarrow>
          if filter (\<lambda>ord. \<kappa> ord = Some k) os = [] then None
          else Some \<lparr>orders = length (filter (\<lambda>ord. \<kappa> ord = Some k) os),
                     revenue = foldl js_add (Fin 0) (map amount (filter (\<lambda>ord. \<kappa> ord = Some k) os))\<rparr>
      | Some s \<Rightarrow>
          Some \<lparr>orders = orders s + length (filter (\<lambda>ord. \<kappa> ord = Some k) os),
                revenue = foldl js_add (revenue s) (map amount (filter (\<lambda>ord. \<kappa> ord = Some k) os))\<rparr>)"
proof (induction os rule: rev_induct)
  case Nil
  then show ?case by (simp split: option.splits)
next
  case (snoc ord os)
  let ?M = "foldl f m os"
  show ?case
  proof (cases "\<kappa> ord = Some k")
    case True
    then have "map_of (foldl f m (os @ [ord])) k =
        Some \<lparr>orders = orders (case map_of ?M k of None \<Rightarrow> zero_stats | Some d \<Rightarrow> d) + 1,
              revenue = js_add (revenue (case map_of ?M k of None \<Rightarrow> zero_stats | Some d \<Rightarrow> d))
                          (amount ord)\<rparr>"
      by (simp add: step map_of_bump)
    with snoc True show ?thesis
      by (cases "map_of m k") (simp_all add: zero_stats_def)
  next
    case False
    then have "map_of (foldl f m (os @ [ord])) k = map_of ?M k"
      by (cases "\<kappa> ord") (simp_all add: step map_of_bump)
    with snoc False show ?thesis
      by (simp split: option.splits)
  qed
qed

lemma month_entries:
  assumes a: "processAnalyticsData os = Inr a"
  shows "map_of (monthlyData a) m =
     (if m \<in> set months2025 \<or> monthCount m os \<noteq> 0
      then Some \<lparr>orders = monthCount m os,
                 revenue = foldl js_add (Fin 0)
                   (map amount (filter (\<lambda>ord. monthLabel ord = Some m) os))\<rparr>
      else None)"
proof (cases "m \<in> set months2025")
  case True
  then show ?thesis
    unfolding monthlyData_eq [OF a] bump_fold [where f = addMonth and \<kappa> = monthLabel, OF addMonth_cases]
    by (simp add: map_of_init_months zero_stats_def monthCount_def)
next
  case False
  then show ?thesis
    unfolding monthlyData_eq [OF a] bump_fold [where f = addMonth and \<kappa> = monthLabel, OF addMonth_cases]
    by (simp add: map_of_init_other monthCount_def)
qed

lemma location_entries:
  assumes a: "processAnalyticsData os = Inr a" and e: "e \<in> set (locationData a)"
  shows "snd e = \<lparr>orders = locationCount (fst e) os,
                  revenue = foldl js_add (Fin 0)
                    (map amount (filter (\<lambda>ord. shipTo ord = Some (fst e)) os))\<rparr>"
proof -
  let ?ls = "foldl addLocation [] os"
  from e have "e \<in> set ?ls"
    unfolding locationData_eq [OF a] using set_take_subset by fastforce
  moreover have "distinct (map fst ?ls)"
    by (simp add: location_keys)
  ultimately have "map_of ?ls (fst e) = Some (snd e)"
    by simp
  then show ?thesis
    unfolding bump_fold [where f = addLocation and \<kappa> = shipTo, OF addLocation_cases]
    by (simp add: locationCount_def split: if_splits)
qed

text \<open>
  Claim C10: a line item without product changes nothing. The function returns the same
  result - the same summary, or the same failure - when these items are removed from the
  orders. In a summary no product aggregate receives anything from them: the product list
  is made of the titles of the items that have a product, and quantity, number of items
  and revenue of an entry are taken over the items of its title alone. The order that
  contains such an item is counted like every other order: in the order total, the revenue
  total, the fulfilled and paid counts, the order count and the revenue of its month, the
  segment of its customer, and the order count and the revenue of its city.
\<close>

theorem productless_items_ignored:
  "processAnalyticsData (map drop_productless os) = processAnalyticsData os \<and>
   (\<forall>a. processAnalyticsData os = Inr a \<longrightarrow>
      totalOrders a = length os \<and>
      totalRevenue a = foldl js_add (Fin 0) (map amount os) \<and>
      fulfilledOrders a = length (filter (\<lambda>ord. displayFulfillmentStatus ord = ''FULFILLED'') os) \<and>
      paidOrders a = length (filter (\<lambda>ord. displayFinancialStatus ord = ''PAID'') os) \<and>
      (\<forall>m. map_of (monthlyData a) m =
         (if m \<in> set months2025 \<or> monthCount m os \<noteq> 0
          then Some \<lparr>orders = monthCount m os,
                     revenue = foldl js_add (Fin 0)
                       (map amount (filter (\<lambda>ord. monthLabel ord = Some m) os))\<rparr>
          else None)) \<and>
      customerSegments a =
        \<lparr>new = card {c. orderCount c os = 1},
         returning = card {c. 2 \<le> orderCount c os \<and> orderCount c os \<le> 4},
         vip = card {c. 5 \<le> orderCount c os}\<rparr> \<and>
      map fst (locationData a) =
        take 10 (sort_key (\<lambda>l. - int (locationCount l os)) (firstSeen (shipLocations os))) \<and>
      (\<forall>e\<in>set (locationData a).
         snd e = \<lparr>orders = locationCount (fst e) os,
                  revenue = foldl js_add (Fin 0)
                    (map amount (filter (\<lambda>ord. shipTo ord = Some (fst e)) os))\<rparr>) \<and>
      map name (productData a) =
        take 10 (sort_key (\<lambda>t. - totalQuantity t os) (firstSeen (productTitles os))) \<and>
      (\<forall>s\<in>set (productData a).
         pquantity s = totalQuantity (name s) os \<and>
         porders s = length (titled (name s) os) \<and>
         prevenue s = foldl js_add (Fin 0) (map itemRevenue (titled (name s) os))))"
proof -
  have "processAnalyticsData (map drop_productless os) = processAnalyticsData os"
    by (simp add: processAnalyticsData_def processOrders_productless split: sum.splits)
  moreover have "totalOrders a = length os \<and>
      totalRevenue a = foldl js_add (Fin 0) (map amount os) \<and>
      fulfilledOrders a = length (filter (\<lambda>ord. displayFulfillmentStatus ord = ''FULFILLED'') os) \<and>
      paidOrders a = length (filter (\<lambda>ord. displayFinancialStatus ord = ''PAID'') os) \<and>
      (\<forall>m. map_of (monthlyData a) m =
         (if m \<in> set months2025 \<or> monthCount m os \<noteq> 0
          then Some \<lparr>orders = monthCount m os,
                     revenue = foldl js_add (Fin 0)
                       (map amount (filter (\<lambda>ord. monthLabel ord = Some m) os))\<rparr>
          else None)) \<and>
      customerSegments a =
        \<lparr>new = card {c. orderCount c os = 1},
         returning = card {c. 2 \<le> orderCount c os \<and> orderCount c os \<le> 4},
         vip = card {c. 5 \<le> orderCount c os}\<rparr> \<and>
      map fst (locationData a) =
        take 10 (sort_key (\<lambda>l. - int (locationCount l os)) (firstSeen (shipLocations os))) \<and>
      (\<forall>e\<in>set (locationData a).
         snd e = \<lparr>orders = locationCount (fst e) os,
                  revenue = foldl js_add (Fin 0)
                    (map amount (filter (\<lambda>ord. shipTo ord = Some (fst e)) os))\<rparr>) \<and>
      map name (productData a) =
        take 10 (sort_key (\<lambda>t. - totalQuantity t os) (firstSeen (productTitles os))) \<and>
      (\<forall>s\<in>set (productData a).
         pquantity s = totalQuantity (name s) os \<and>
         porders s = length (titled (name s) os) \<and>
         prevenue s = foldl js_add (Fin 0) (map itemRevenue (titled (name s) os)))"
    if a: "processAnalyticsData os = Inr a" for a
    using totalOrders_eq [OF a] totalRevenue_eq [OF a] fulfilledOrders_eq [OF a]
      paidOrders_eq [OF a] month_entries [OF a] customerSegments_card [OF a]
      location_summary(1) [OF a] location_entries [OF a] product_summary(1,4) [OF a]
    by blast
  ultimately show ?thesis by blast
qed

theorem productless_items_ignored_witness:
  "processAnalyticsData [orderM] = Inr orderM_summary \<and>
   map lineItems [orderM] =
     [[\<lparr>product = None, quantity = 3, variant = None\<rparr>,
       \<lparr>product = Some ''Widget'', quantity = 1, variant = Some (Fin 50)\<rparr>]] \<and>
   map lineItems (map drop_productless [orderM]) =
     [[\<lparr>product = Some ''Widget'', quantity = 1, variant = Some (Fin 50)\<rparr>]] \<and>
   processAnalyticsData (map drop_productless [orderM]) = Inr orderM_summary \<and>
   totalOrders orderM_summary = length [orderM] \<and>
   totalRevenue orderM_summary = Fin 125 \<and>
   monthCount ''Mar 2025'' [orderM] = 1 \<and>
   map_of (monthlyData orderM_summary) ''Mar 2025'' = Some \<lparr>orders = 1, revenue = Fin 125\<rparr> \<and>
   orderCount ''c1'' [orderM] = 1 \<and> new (customerSegments orderM_summary) = 1 \<and>
   locationCount ''Springfield'' [orderM] = 1 \<and>
   locationData orderM_summary = [(''Springfield'', \<lparr>orders = 1, revenue = Fin 125\<rparr>)] \<and>
   titled ''Widget'' [orderM] =
     [\<lparr>product = Some ''Widget'', quantity = 1, variant = Some (Fin 50)\<rparr>] \<and>
   productData orderM_summary =
     [\<lparr>name = ''Widget'', pquantity = 1, prevenue = Fin 50, porders = 1\<rparr>]"
proof -
  have s: "processAnalyticsData [orderM] = Inr orderM_summary"
    by (simp add: orderM_summary_def orderM_def processAnalyticsData_def finish_def
        processOrder_def addItem_def init_acc_def addMonth_def addCustomer_def addLocation_def
        location_of_def bump_stats_def toLocaleDateString_def showNat.simps months2025_def
        zero_stats_def empty_summary_def segment_counts_def classify_def num_of_nat_def
        num_of_int_def fl_numeral fl_one Let_def)
  have i: "map lineItems [orderM] =
     [[\<lparr>product = None, quantity = 3, variant = None\<rparr>,
       \<lparr>product = Some ''Widget'', quantity = 1, variant = Some (Fin 50)\<rparr>]]"
    "map lineItems (map drop_productless [orderM]) =
     [[\<lparr>product = Some ''Widget'', quantity = 1, variant = Some (Fin 50)\<rparr>]]"
    "titled ''Widget'' [orderM] =
     [\<lparr>product = Some ''Widget'', quantity = 1, variant = Some (Fin 50)\<rparr>]"
    by (simp_all add: orderM_def drop_productless_def has_product_def titled_def allItems_def)
  have c: "monthCount ''Mar 2025'' [orderM] = 1" "orderCount ''c1'' [orderM] = 1"
    "locationCount ''Springfield'' [orderM] = 1"
    by (simp_all add: monthCount_def monthLabel_def toLocaleDateString_def showNat.simps
        orderCount_def locationCount_def shipTo_def location_of_def orderM_def)
  have v: "totalOrders orderM_summary = length [orderM]" "totalRevenue orderM_summary = Fin 125"
    "map_of (monthlyData orderM_summary) ''Mar 2025'' = Some \<lparr>orders = 1, revenue = Fin 125\<rparr>"
    "new (customerSegments orderM_summary) = 1"
    "locationData orderM_summary = [(''Springfield'', \<lparr>orders = 1, revenue = Fin 125\<rparr>)]"
    "productData orderM_summary =
       [\<lparr>name = ''Widget'', pquantity = 1, prevenue = Fin 50, porders = 1\<rparr>]"
    by (simp_all add: orderM_summary_def empty_summary_def months2025_def AList.update_conv')
  from productless_items_ignored [of "[orderM]"]
  have "processAnalyticsData (map drop_productless [orderM]) = processAnalyticsData [orderM]"
    by blast
  with s i c v show ?thesis
    by simp
qed

end
